theory Spec2Isabelle
  imports Main "HOL-Library.Word" "HOL-Library.Monad_Syntax"
begin

unbundle bit_operations_syntax

section \<open>Constants of toledo\_atomchess.h\<close>

text \<open>
  The macros of the header, with the types at which the code uses them: cell values are
  \<open>unsigned char\<close> (\<open>8 word\<close>), everything else is a C \<open>int\<close>. The \<open>int\<close> values of
  the program (square indices, depths, scores) stay far inside the 32-bit range, so they
  are modelled as unbounded integers.
\<close>

definition BOARD_SIZE :: int where "BOARD_SIZE = 128"
definition FRONTIER :: "8 word" where "FRONTIER = 0x07"
definition EMPTY :: "8 word" where "EMPTY = 0x00"

definition PIECE_MASK :: int where "PIECE_MASK = 0x07"
definition COLOR_MASK :: int where "COLOR_MASK = 0x08"
definition PIECE_FULL_MASK :: int where "PIECE_FULL_MASK = 0x0F"

definition PAWN :: int where "PAWN = 1"
definition ROOK :: int where "ROOK = 2"
definition QUEEN :: int where "QUEEN = 4"
definition KING :: int where "KING = 6"

definition BLACK :: int where "BLACK = 0x00"
definition WHITE :: int where "WHITE = 0x08"

definition MAX_DEPTH_PLY1 :: int where "MAX_DEPTH_PLY1 = 4"
definition MAX_DEPTH_PLY0 :: int where "MAX_DEPTH_PLY0 = 6"

definition MIN_SCORE :: int where "MIN_SCORE = - 32768"
definition KING_CAPTURE_SCORE :: int where "KING_CAPTURE_SCORE = 78"
definition MAX_CHECKMATE_SCORE :: int where "MAX_CHECKMATE_SCORE = KING_CAPTURE_SCORE * 2"
definition ILLEGAL_MOVE_SCORE :: int where "ILLEGAL_MOVE_SCORE = - 127"

lemmas const_defs =
  BOARD_SIZE_def FRONTIER_def EMPTY_def PIECE_MASK_def COLOR_MASK_def PIECE_FULL_MASK_def
  PAWN_def QUEEN_def KING_def BLACK_def WHITE_def MAX_DEPTH_PLY1_def MAX_DEPTH_PLY0_def
  MIN_SCORE_def KING_CAPTURE_SCORE_def MAX_CHECKMATE_SCORE_def ILLEGAL_MOVE_SCORE_def

section \<open>Tables of toledo\_atomchess.c\<close>

definition piece_scores :: "int list" where
  "piece_scores = [0, 1, 5, 3, 9, 3, 0]"

definition initial_position :: "8 word list" where
  "initial_position = [0x12, 0x15, 0x13, 0x14, 0x16, 0x13, 0x15, 0x12]"

definition displacement :: "int list" where
  "displacement =
    [- 33, - 31, - 18, - 14, 14, 18, 31, 33,
     - 16, 16, - 1, 1,
     15, 17, - 15, - 17,
     - 17, - 15, - 16, - 32,
     15, 17, 16, 32]"

definition offsets :: "int list" where
  "offsets = [0, 16, 8, 12, 8, 0, 8]"

section \<open>The game state\<close>

record ChessState =
  board :: "8 word list"
  depth_limit :: int
  enp :: int
  temp_score :: int
  legal_move_check :: int
  stack_depth :: int
  best_from :: int
  best_to :: int
  rand_seed :: "32 word"

text \<open>
  The C array has exactly \<open>BOARD_SIZE\<close> cells; a state of the program is a record whose board
  list has that length.
\<close>

definition wf_state :: "ChessState \<Rightarrow> bool" where
  "wf_state st \<longleftrightarrow> length (board st) = 128"

subsection \<open>Board initialisation\<close>

text \<open>\<open>create_board\<close>: two passes over the 128 cells.\<close>

definition create_board :: "ChessState \<Rightarrow> ChessState" where
  "create_board st =
    (let b1 = fold (\<lambda>i b. b[i := EMPTY]) [0..<128] (board st);
         b2 = fold (\<lambda>i b. if (int i AND 0x88) \<noteq> 0 then b[i := FRONTIER] else b) [0..<128] b1
     in st\<lparr>board := b2\<rparr>)"

text \<open>\<open>setup_board\<close>: the four writes of each iteration, in the order of the source.\<close>

definition setup_board :: "ChessState \<Rightarrow> ChessState" where
  "setup_board st =
    (let b = fold (\<lambda>i b.
               let piece = initial_position ! i;
                   b = b[i := piece];
                   b = b[i + 0x70 := piece OR 0x08];
                   b = b[(i + 1) + 0x0F := 0x11];
                   b = b[(i + 1) + 0x5F := 0x19]
               in b) [0..<8] (board st)
     in st\<lparr>enp := 0, board := b\<rparr>)"

definition init_chess :: "ChessState \<Rightarrow> ChessState" where
  "init_chess st = setup_board (create_board st)"

text \<open>The state of \<open>main\<close> after \<open>memset\<close> and seeding, for a given seed.\<close>

definition zero_state :: "32 word \<Rightarrow> ChessState" where
  "zero_state seed =
    \<lparr>board = replicate 128 0, depth_limit = 0, enp = 0, temp_score = 0,
     legal_move_check = 0, stack_depth = 0, best_from = 0, best_to = 0, rand_seed = seed\<rparr>"

section \<open>Move execution\<close>

text \<open>
  \<open>make_move\<close> indexes the array with unchecked \<open>int\<close>s. An access outside the 128 cells is
  undefined behaviour in C; the model returns \<open>None\<close> there.
\<close>

definition rd :: "8 word list \<Rightarrow> int \<Rightarrow> 8 word option" where
  "rd b i = (if 0 \<le> i \<and> i < BOARD_SIZE then Some (b ! nat i) else None)"

definition wr :: "8 word list \<Rightarrow> int \<Rightarrow> 8 word \<Rightarrow> 8 word list option" where
  "wr b i v = (if 0 \<le> i \<and> i < BOARD_SIZE then Some (b[nat i := v]) else None)"

definition get_piece_type :: "8 word \<Rightarrow> int" where
  "get_piece_type piece = uint piece AND PIECE_MASK"

definition make_move :: "ChessState \<Rightarrow> int \<Rightarrow> int \<Rightarrow> ChessState option" where
  "make_move st from to = do {
     piece \<leftarrow> rd (board st) from;
     captured \<leftarrow> rd (board st) to;
     b \<leftarrow> wr (board st) to (piece AND 0x0F);
     b \<leftarrow> wr b from EMPTY;
     let piece_type = get_piece_type piece;
     (b, e) \<leftarrow>
       (if piece_type = PAWN then do {
          b \<leftarrow> (if (to AND 0xF0) = 0x00 \<or> (to AND 0xF0) = 0x70
                then wr b to ((piece AND 0x08) OR 0x04) else Some b);
          let diff = to - from;
          b \<leftarrow> (if (diff AND 0x0F) > 1 \<or> (diff AND 0x0F) < - 1 then
                  (if captured = EMPTY \<and> to = enp st then
                     wr b (if diff > 0 then to - 16 else to + 16) EMPTY
                   else Some b)
                else Some b);
          Some (b, if diff = 32 \<or> diff = - 32 then to else 0)
        } else Some (b, 0));
     b \<leftarrow>
       (if piece_type = KING then
          (let diff = to - from in
           if diff = 2 then do {
             v \<leftarrow> rd b (to + 1);
             b \<leftarrow> wr b (to - 1) v;
             wr b (to + 1) EMPTY
           } else if diff = - 2 then do {
             v \<leftarrow> rd b (to - 2);
             b \<leftarrow> wr b (to + 1) v;
             wr b (to - 2) EMPTY
           } else Some b)
        else Some b);
     Some (st\<lparr>board := b, enp := e\<rparr>)
   }"

section \<open>The move generator and search engine\<close>

text \<open>
  \<open>play\<close> is three nested loops (origin square, direction, ray) around a recursive call.
  It either leaves from inside the loops (\<open>return\<close> at a king capture or at the validated
  move) or runs them to the end. A loop therefore yields an \<open>outcome\<close>: the early return with
  the returned value, the score written to \<open>*best_score\<close> and the state; or the state and
  the running best score \<open>bp\<close> with which the next iteration goes on. The recursive call is a
  parameter \<open>rec\<close> of the loops; \<open>NoFuel\<close> is the model's own value for a recursion that was
  cut off (see \<open>play_fuel\<close>).
\<close>

datatype outcome =
    NoFuel
  | Returned int int ChessState
  | Running ChessState int

type_synonym recursion = "ChessState \<Rightarrow> int \<Rightarrow> (int \<times> int \<times> ChessState) option"

text \<open>The parameters and the locals of \<open>play\<close> that are fixed while one ray is followed.\<close>

record locals =
  origin_hint :: int
  target_hint :: int
  current_color :: int
  si :: int
  piece_at_origin :: "8 word"
  movement_offset :: int
  movement_count :: int
  is_sliding_piece :: bool
  move_dir :: int

text \<open>Lines 328-331: the next target square of the ray.\<close>

definition next_target :: "locals \<Rightarrow> int \<Rightarrow> int" where
  "next_target L di =
    (let disp_idx = movement_offset L + move_dir L;
         disp_idx = (if disp_idx \<ge> 24 then 16 else disp_idx)
     in di + displacement ! nat disp_idx)"

text \<open>Line 334: the bounds check.\<close>

definition off_board :: "int \<Rightarrow> bool" where
  "off_board di \<longleftrightarrow> (di AND 0x88) \<noteq> 0 \<or> di < 0 \<or> di \<ge> BOARD_SIZE"

text \<open>
  Lines 338-369: the test of the target square. \<open>True\<close> is \<open>goto valid_move\<close>, \<open>False\<close> is
  \<open>break\<close>. It reads the board and the en passant target only.
\<close>

definition target_ok :: "8 word list \<Rightarrow> int \<Rightarrow> locals \<Rightarrow> int \<Rightarrow> bool" where
  "target_ok b e L di =
    (let target_piece = b ! nat di;
         target_type = target_piece AND 0x0F
     in if target_type = EMPTY then
          (if movement_offset L \<ge> 16 \<and> movement_count L < 3 then True
           else if movement_offset L \<ge> 16 then (if di = e then True else False)
           else True)
        else
          (let target_color = uint target_piece AND COLOR_MASK
           in if target_color \<noteq> current_color L \<and> (uint target_type AND PIECE_MASK) < 7
              then True else False))"

text \<open>Lines 388 and 441: the test for validation mode.\<close>

definition validating :: "ChessState \<Rightarrow> bool" where
  "validating st \<longleftrightarrow> legal_move_check st \<noteq> 0 \<and> stack_depth st = 0"

text \<open>Lines 378-383: the score of a king capture.\<close>

definition king_capture_score :: "ChessState \<Rightarrow> int" where
  "king_capture_score st =
    (if stack_depth st > MAX_DEPTH_PLY1 then MAX_CHECKMATE_SCORE else KING_CAPTURE_SCORE)"

text \<open>
  Lines 398-429: make the move, search the reply when below the depth limit, unmake the
  move, keep the best score (and the best move at the root). \<open>c\<close>, \<open>s\<close> and \<open>p\<close> are
  \<open>current_color\<close>, \<open>si\<close> and \<open>piece_at_origin\<close>.
\<close>

definition search_move :: "recursion \<Rightarrow> int \<Rightarrow> int \<Rightarrow> 8 word \<Rightarrow> ChessState \<Rightarrow> int \<Rightarrow> int \<Rightarrow> outcome" where
  "search_move rec c s p st bp di =
    (let captured_type = get_piece_type (board st ! nat di);
         saved_target_piece = board st ! nat di;
         saved_origin_piece = board st ! nat s;
         st = st\<lparr>board := (board st)[nat di := p AND 0x0F]\<rparr>;
         st = st\<lparr>board := (board st)[nat s := EMPTY]\<rparr>;
         move_score = piece_scores ! nat captured_type;
         searched =
           (if stack_depth st < depth_limit st then
              (case rec (st\<lparr>stack_depth := stack_depth st + 2\<rparr>) (c XOR COLOR_MASK) of
                 None \<Rightarrow> None
               | Some (r, sub_score, st') \<Rightarrow>
                   Some (st'\<lparr>stack_depth := stack_depth st' - 2\<rparr>, move_score - sub_score))
            else Some (st, move_score))
     in case searched of
          None \<Rightarrow> NoFuel
        | Some (st, move_score) \<Rightarrow>
           (let st = st\<lparr>board := (board st)[nat s := saved_origin_piece]\<rparr>;
                st = st\<lparr>board := (board st)[nat di := saved_target_piece]\<rparr>
            in if move_score > bp then
                 Running (if stack_depth st = 0 then st\<lparr>best_from := s, best_to := di\<rparr> else st)
                         move_score
               else Running st bp))"

text \<open>
  Lines 326-436: the ray loop \<open>for (;;)\<close>. In validation mode a move that is not the one looked
  for takes the \<open>continue\<close> of line 395, which goes round the loop without the test of
  line 433.
\<close>

function ray_loop :: "recursion \<Rightarrow> locals \<Rightarrow> ChessState \<Rightarrow> int \<Rightarrow> int \<Rightarrow> outcome" where
  "ray_loop rec L st bp di0 =
    (let di = next_target L di0 in
     if off_board di then Running st bp
     else if \<not> target_ok (board st) (enp st) L di then Running st bp
     else if get_piece_type (board st ! nat di) = KING then
       Returned 1 (king_capture_score st) st
     else if validating st then
       (if si L = origin_hint L \<and> di = target_hint L then Returned 0 0 st
        else ray_loop rec L st bp di)
     else
       (case search_move rec (current_color L) (si L) (piece_at_origin L) st bp di of
          Running st' bp' \<Rightarrow>
            if \<not> is_sliding_piece L \<or> (board st ! nat di) AND 0x0F \<noteq> EMPTY
            then Running st' bp'
            else ray_loop rec L st' bp' di
        | other \<Rightarrow> other))"
  by pat_completeness auto

text \<open>
  The ray loop ends because every entry of the displacement table is non-zero: each round
  moves the target square strictly in one direction, and the loop is left once the square
  is off the board.
\<close>

definition ray_step :: "locals \<Rightarrow> int" where
  "ray_step L = next_target L 0"

lemma displacement_nonzero: "k < 24 \<Longrightarrow> displacement ! k \<noteq> 0"
proof -
  have "\<forall>x \<in> set displacement. x \<noteq> 0" by (simp add: displacement_def)
  moreover have "length displacement = 24" by (simp add: displacement_def)
  ultimately show "k < 24 \<Longrightarrow> displacement ! k \<noteq> 0" by (metis nth_mem)
qed

lemma next_target_step: "next_target L di = di + ray_step L"
  by (simp add: next_target_def ray_step_def Let_def)

lemma ray_step_nonzero: "ray_step L \<noteq> 0"
proof -
  have "nat (if movement_offset L + move_dir L \<ge> 24 then 16
             else movement_offset L + move_dir L) < 24"
    by auto
  then show ?thesis
    unfolding ray_step_def next_target_def Let_def
    using displacement_nonzero by simp
qed

termination ray_loop
proof (relation "measure (\<lambda>(rec, L, st, bp, di).
          if 0 < ray_step L then nat (128 - di) else nat (di + 1))", goal_cases)
  case 1
  then show ?case by simp
next
  case (2 rec L st bp di0 x)
  then show ?case using ray_step_nonzero [of L]
    by (auto simp: off_board_def BOARD_SIZE_def next_target_step)
next
  case (3 rec L st bp di0 x)
  then show ?case using ray_step_nonzero [of L]
    by (auto simp: off_board_def BOARD_SIZE_def next_target_step)
qed

declare ray_loop.simps [simp del]

text \<open>
  A counted \<open>for\<close> loop whose body does not change the counter: the body is run on each
  value in turn, and an early return of the body leaves the loop.
\<close>

fun for_each :: "('a \<Rightarrow> ChessState \<Rightarrow> int \<Rightarrow> outcome) \<Rightarrow> 'a list \<Rightarrow> ChessState \<Rightarrow> int \<Rightarrow> outcome" where
  "for_each body [] st bp = Running st bp"
| "for_each body (x # xs) st bp =
    (case body x st bp of
       Running st' bp' \<Rightarrow> for_each body xs st' bp'
     | other \<Rightarrow> other)"

text \<open>
  Lines 298-319: movement offset, movement count and the adjusted piece index, from the
  piece index \<open>piece_type - 1\<close> (0 = pawn, ..., 5 = king) and the colour to move.
\<close>

definition geometry :: "int \<Rightarrow> int \<Rightarrow> int \<times> int \<times> int" where
  "geometry c piece_idx =
    (if piece_idx = 0 then ((if c = BLACK then 16 else 20), 4, 4)
     else (let piece_idx = piece_idx + 1;
               piece_idx = piece_idx + 4
           in (offsets ! nat (piece_idx - 4), piece_idx AND 0x0C, piece_idx)))"

definition sliding :: "int \<Rightarrow> bool" where
  "sliding piece_idx \<longleftrightarrow> piece_idx \<ge> 6 \<and> piece_idx \<le> 8"

text \<open>
  Lines 282-295: the test of the origin square; the result is the piece index when the
  square holds a piece of the side to move. The value \<open>(piece ^ color) & 0x0F\<close> is between 0
  and 15, so its conversion to \<open>unsigned char\<close> does not change it.
\<close>

definition own_piece_idx :: "8 word list \<Rightarrow> int \<Rightarrow> int \<Rightarrow> int option" where
  "own_piece_idx b c s =
    (if (s AND 0x88) \<noteq> 0 then None
     else (let piece_type = (uint (b ! nat s) XOR c) AND PIECE_FULL_MASK;
               piece_idx = piece_type - 1
           in if piece_idx < 0 \<or> piece_idx \<ge> 6 then None else Some piece_idx))"

definition piece_locals :: "8 word list \<Rightarrow> int \<Rightarrow> int \<Rightarrow> int \<Rightarrow> int \<Rightarrow> int \<Rightarrow> locals" where
  "piece_locals b oh th c s piece_idx =
    (case geometry c piece_idx of (mo, mc, idx) \<Rightarrow>
      \<lparr>origin_hint = oh, target_hint = th, current_color = c, si = s,
       piece_at_origin = b ! nat s, movement_offset = mo, movement_count = mc,
       is_sliding_piece = sliding idx, move_dir = 0\<rparr>)"

text \<open>Lines 282-437: the body of the loop over the origin squares.\<close>

definition square_moves :: "recursion \<Rightarrow> int \<Rightarrow> int \<Rightarrow> int \<Rightarrow> int \<Rightarrow> ChessState \<Rightarrow> int \<Rightarrow> outcome" where
  "square_moves rec oh th c s st bp =
    (case own_piece_idx (board st) c s of
       None \<Rightarrow> Running st bp
     | Some piece_idx \<Rightarrow>
         (let L = piece_locals (board st) oh th c s piece_idx
          in for_each (\<lambda>d st bp. ray_loop rec (L\<lparr>move_dir := d\<rparr>) st bp s)
               [0..movement_count L - 1] st bp))"

text \<open>Lines 276-449: \<open>play\<close>, with its recursive call as the parameter \<open>rec\<close>.\<close>

definition play_body :: "recursion \<Rightarrow> ChessState \<Rightarrow> int \<Rightarrow> int \<Rightarrow> int \<Rightarrow> (int \<times> int \<times> ChessState) option" where
  "play_body rec st oh th c =
    (let bp = MIN_SCORE;
         saved_enp = enp st
     in case for_each (square_moves rec oh th c) [0..119] st bp of
          NoFuel \<Rightarrow> None
        | Returned r best_score st' \<Rightarrow> Some (r, best_score, st')
        | Running st' bp \<Rightarrow>
            Some (0, (if validating st' then ILLEGAL_MOVE_SCORE else bp), st'\<lparr>enp := saved_enp\<rparr>))"

text \<open>
  The recursion of \<open>play\<close> is bounded by the depth limit only through the state, so the model
  counts the nesting of calls: \<open>play_fuel n\<close> allows \<open>n\<close> nested calls and is \<open>None\<close> when one
  more would be needed. \<open>play\<close> gives it the number that the depth fields call for.
\<close>

fun play_fuel :: "nat \<Rightarrow> ChessState \<Rightarrow> int \<Rightarrow> int \<Rightarrow> int \<Rightarrow> (int \<times> int \<times> ChessState) option" where
  "play_fuel 0 st oh th c = None"
| "play_fuel (Suc n) st oh th c = play_body (\<lambda>st' c'. play_fuel n st' (- 1) (- 1) c') st oh th c"

definition play :: "ChessState \<Rightarrow> int \<Rightarrow> int \<Rightarrow> int \<Rightarrow> (int \<times> int \<times> ChessState) option" where
  "play st oh th c = play_fuel (Suc (nat (depth_limit st - stack_depth st))) st oh th c"

text \<open>
  Lines 452-462: \<open>play_validate\<close> sets the three mode fields, calls \<open>play\<close> and returns the
  score; the state after the call is the second component of the result.
\<close>

definition play_validate :: "ChessState \<Rightarrow> int \<Rightarrow> int \<Rightarrow> int \<Rightarrow> (int \<times> ChessState) option" where
  "play_validate st origin target c =
    (let st = st\<lparr>legal_move_check := 1\<rparr>;
         st = st\<lparr>depth_limit := MAX_DEPTH_PLY1\<rparr>;
         st = st\<lparr>stack_depth := 0\<rparr>
     in case play st origin target c of
          None \<Rightarrow> None
        | Some (r, score, st') \<Rightarrow> Some (score, st'))"

section \<open>The enumeration read off the loops\<close>

text \<open>
  A generated move is a pair of origin and target square at which control reaches the label
  \<open>valid_move\<close>. The functions below list these pairs in the order of the loops, for a fixed
  board and en passant target: \<open>ray_targets\<close> follows the ray loop, \<open>piece_moves\<close> the loop over
  the directions, \<open>gen_moves\<close> the loop over the origin squares. The flag \<open>v\<close> tells which of
  the two ways round the ray loop is taken after a move: \<open>True\<close> for the \<open>continue\<close> of line
  395 (validation mode), \<open>False\<close> for the test of line 433 (search).
\<close>

function ray_targets :: "bool \<Rightarrow> 8 word list \<Rightarrow> int \<Rightarrow> locals \<Rightarrow> int \<Rightarrow> int list" where
  "ray_targets v b e L di0 =
    (let di = next_target L di0 in
     if off_board di then []
     else if \<not> target_ok b e L di then []
     else di # (if v \<or> (is_sliding_piece L \<and> (b ! nat di) AND 0x0F = EMPTY)
                then ray_targets v b e L di else []))"
  by pat_completeness auto
termination
proof (relation "measure (\<lambda>(v, b, e, L, di).
          if 0 < ray_step L then nat (128 - di) else nat (di + 1))", goal_cases)
  case 1
  then show ?case by simp
next
  case (2 v b e L di0 x)
  then show ?case using ray_step_nonzero [of L]
    by (auto simp: off_board_def BOARD_SIZE_def next_target_step)
qed

declare ray_targets.simps [simp del]

definition piece_moves :: "bool \<Rightarrow> 8 word list \<Rightarrow> int \<Rightarrow> int \<Rightarrow> int \<Rightarrow> (int \<times> int) list" where
  "piece_moves v b e c s =
    (case own_piece_idx b c s of
       None \<Rightarrow> []
     | Some piece_idx \<Rightarrow>
         (let L = piece_locals b 0 0 c s piece_idx
          in concat (map (\<lambda>d. map (Pair s) (ray_targets v b e (L\<lparr>move_dir := d\<rparr>) s))
                         [0..movement_count L - 1])))"

definition gen_moves :: "bool \<Rightarrow> 8 word list \<Rightarrow> int \<Rightarrow> int \<Rightarrow> (int \<times> int) list" where
  "gen_moves v b e c = concat (map (piece_moves v b e c) [0..119])"

text \<open>
  Lines 376-429: what \<open>play\<close> does with one generated move, up to the point where the ray
  loop decides how to go on.
\<close>

definition visit :: "recursion \<Rightarrow> int \<Rightarrow> int \<Rightarrow> int \<Rightarrow> int \<times> int \<Rightarrow> ChessState \<Rightarrow> int \<Rightarrow> outcome" where
  "visit rec oh th c m st bp =
    (case m of (s, di) \<Rightarrow>
      if get_piece_type (board st ! nat di) = KING then Returned 1 (king_capture_score st) st
      else if validating st then
        (if s = oh \<and> di = th then Returned 0 0 st else Running st bp)
      else search_move rec c s (board st ! nat s) st bp di)"

text \<open>The end of \<open>play\<close> (lines 440-448), applied to the outcome of the loops.\<close>

definition finish :: "ChessState \<Rightarrow> outcome \<Rightarrow> (int \<times> int \<times> ChessState) option" where
  "finish st out =
    (case out of
       NoFuel \<Rightarrow> None
     | Returned r best_score st' \<Rightarrow> Some (r, best_score, st')
     | Running st' bp \<Rightarrow>
         Some (0, (if validating st' then ILLEGAL_MOVE_SCORE else bp), st'\<lparr>enp := enp st\<rparr>))"

text \<open>
  Two states are equal up to the recorded best move; the recursive call \<open>rec\<close> is in order
  for the node \<open>st\<close> when, on the states the node passes to it, it returns and gives the
  state back equal up to the best move.
\<close>

definition frame_eq :: "ChessState \<Rightarrow> ChessState \<Rightarrow> bool" where
  "frame_eq st st' \<longleftrightarrow>
     board st' = board st \<and> depth_limit st' = depth_limit st \<and> enp st' = enp st
   \<and> temp_score st' = temp_score st \<and> legal_move_check st' = legal_move_check st
   \<and> stack_depth st' = stack_depth st \<and> rand_seed st' = rand_seed st"

definition rec_ok :: "recursion \<Rightarrow> ChessState \<Rightarrow> bool" where
  "rec_ok rec st \<longleftrightarrow>
    (stack_depth st < depth_limit st \<longrightarrow>
      (\<forall>s c. depth_limit s = depth_limit st \<and> stack_depth s = stack_depth st + 2 \<longrightarrow>
         (\<exists>r sc s'. rec s c = Some (r, sc, s') \<and> frame_eq s s')))"

text \<open>The recursive call of line 411: \<open>play(state, -1, -1, color, &sub_score)\<close>.\<close>

definition play_rec :: recursion where
  "play_rec st c = play st (- 1) (- 1) c"

text \<open>Two recursive calls agree on the states that the node \<open>st\<close> passes to them.\<close>

definition rec_agree :: "recursion \<Rightarrow> recursion \<Rightarrow> ChessState \<Rightarrow> bool" where
  "rec_agree rec rec' st \<longleftrightarrow>
    (stack_depth st < depth_limit st \<longrightarrow>
      (\<forall>s c. depth_limit s = depth_limit st \<and> stack_depth s = stack_depth st + 2 \<longrightarrow>
         rec s c = rec' s c))"

text \<open>A generated move whose target square holds a king (line 378).\<close>

definition is_king_target :: "8 word list \<Rightarrow> int \<times> int \<Rightarrow> bool" where
  "is_king_target b m \<longleftrightarrow> get_piece_type (b ! nat (snd m)) = KING"

text \<open>
  What a call of \<open>play\<close> tells its caller: the returned value and the score. The recursive call
  does not look at the recorded best move when its verdict is the same on states that are
  equal up to it; two outcomes of a loop are then equal up to the best move.
\<close>

definition verdict :: "(int \<times> int \<times> ChessState) option \<Rightarrow> (int \<times> int) option" where
  "verdict x = map_option (\<lambda>(r, sc, st'). (r, sc)) x"

definition rec_indep :: "recursion \<Rightarrow> ChessState \<Rightarrow> bool" where
  "rec_indep rec st \<longleftrightarrow>
    (stack_depth st < depth_limit st \<longrightarrow>
      (\<forall>s s' c. frame_eq s s' \<and> depth_limit s = depth_limit st \<and> stack_depth s = stack_depth st + 2 \<longrightarrow>
         verdict (rec s c) = verdict (rec s' c)))"

fun outcome_rel :: "outcome \<Rightarrow> outcome \<Rightarrow> bool" where
  "outcome_rel (Returned r sc x) (Returned r' sc' y) \<longleftrightarrow> r = r' \<and> sc = sc' \<and> frame_eq x y"
| "outcome_rel (Running x bp) (Running y bp') \<longleftrightarrow> bp = bp' \<and> frame_eq x y"
| "outcome_rel _ _ \<longleftrightarrow> False"

text \<open>The recursive call gives back the very state it was given.\<close>

definition rec_keep :: "recursion \<Rightarrow> ChessState \<Rightarrow> bool" where
  "rec_keep rec st \<longleftrightarrow>
    (stack_depth st < depth_limit st \<longrightarrow>
      (\<forall>s c. depth_limit s = depth_limit st \<and> stack_depth s = stack_depth st + 2 \<longrightarrow>
         (\<exists>r sc. rec s c = Some (r, sc, s))))"

section \<open>The score of a node, as the specification words it\<close>

text \<open>
  The position that the recursive call is given for the move \<open>m\<close> (lines 402, 403 and 410),
  the material value of the captured piece (line 406), the score that the recursive call
  returns for that position, and the score of the move: material minus reply below the
  depth limit, material alone at the limit (lines 406-414).
\<close>

definition after_move :: "ChessState \<Rightarrow> int \<times> int \<Rightarrow> ChessState" where
  "after_move st m =
    st\<lparr>board := (board st)[nat (snd m) := (board st ! nat (fst m)) AND 0x0F, nat (fst m) := EMPTY],
       stack_depth := stack_depth st + 2\<rparr>"

definition material :: "8 word list \<Rightarrow> int \<times> int \<Rightarrow> int" where
  "material b m = piece_scores ! nat (get_piece_type (b ! nat (snd m)))"

definition reply_score :: "ChessState \<Rightarrow> int \<Rightarrow> int \<times> int \<Rightarrow> int" where
  "reply_score st c m =
    (case play (after_move st m) (- 1) (- 1) (c XOR COLOR_MASK) of
       Some (r, sub_score, st') \<Rightarrow> sub_score
     | None \<Rightarrow> 0)"

definition move_score :: "ChessState \<Rightarrow> int \<Rightarrow> int \<times> int \<Rightarrow> int" where
  "move_score st c m =
    (if stack_depth st < depth_limit st then material (board st) m - reply_score st c m
     else material (board st) m)"

text \<open>Lines 425-428: the best move is recorded at the root only.\<close>

definition record_best :: "ChessState \<Rightarrow> int \<times> int \<Rightarrow> ChessState" where
  "record_best st m = (if stack_depth st = 0 then st\<lparr>best_from := fst m, best_to := snd m\<rparr> else st)"

text \<open>
  The score the specification gives a node, the largest score of a generated move, and the
  first generated move that has this score.
\<close>

definition best_score_of :: "ChessState \<Rightarrow> int \<Rightarrow> int" where
  "best_score_of st c = Max (move_score st c ` set (gen_moves False (board st) (enp st) c))"

definition first_best :: "ChessState \<Rightarrow> int \<Rightarrow> (int \<times> int) option" where
  "first_best st c =
    find (\<lambda>m. move_score st c m = best_score_of st c) (gen_moves False (board st) (enp st) c)"

section \<open>The search engine with a trace of its board writes and recursive calls\<close>

text \<open>
  The functions above give the state that \<open>play\<close> returns, not what it does to the board
  on the way. The functions of this section are the same code, line for line, and return in
  addition the trace of the call: one event \<open>Write i v\<close> for each executed assignment
  \<open>state->board[i] = v\<close> (lines 402, 403, 417 and 418, the only assignments to the board in
  \<open>play\<close>) and one event \<open>Call\<close> for each execution of the recursive call of line 411, in the
  order of execution. The recursive call is again a parameter, which returns its own trace.
\<close>

datatype event = Write int "8 word" | Call

type_synonym logged_recursion =
  "ChessState \<Rightarrow> int \<Rightarrow> ((int \<times> int \<times> ChessState) \<times> event list) option"

definition unlogged :: "logged_recursion \<Rightarrow> recursion" where
  "unlogged rec st c = map_option fst (rec st c)"

text \<open>
  Lines 398-429 as in \<open>search_move\<close>: the two writes that make the move, the recursive call
  with its trace, and the two writes that unmake the move.
\<close>

definition search_move_log ::
  "logged_recursion \<Rightarrow> int \<Rightarrow> int \<Rightarrow> 8 word \<Rightarrow> ChessState \<Rightarrow> int \<Rightarrow> int \<Rightarrow> outcome \<times> event list" where
  "search_move_log rec c s p st bp di =
    (let captured_type = get_piece_type (board st ! nat di);
         saved_target_piece = board st ! nat di;
         saved_origin_piece = board st ! nat s;
         st = st\<lparr>board := (board st)[nat di := p AND 0x0F]\<rparr>;
         st = st\<lparr>board := (board st)[nat s := EMPTY]\<rparr>;
         made = [Write di (p AND 0x0F), Write s EMPTY];
         move_score = piece_scores ! nat captured_type;
         searched =
           (if stack_depth st < depth_limit st then
              (case rec (st\<lparr>stack_depth := stack_depth st + 2\<rparr>) (c XOR COLOR_MASK) of
                 None \<Rightarrow> None
               | Some ((r, sub_score, st'), w) \<Rightarrow>
                   Some (st'\<lparr>stack_depth := stack_depth st' - 2\<rparr>, move_score - sub_score,
                         Call # w))
            else Some (st, move_score, []))
     in case searched of
          None \<Rightarrow> (NoFuel, made @ [Call])
        | Some (st, move_score, w) \<Rightarrow>
           (let st = st\<lparr>board := (board st)[nat s := saved_origin_piece]\<rparr>;
                st = st\<lparr>board := (board st)[nat di := saved_target_piece]\<rparr>;
                unmade = [Write s saved_origin_piece, Write di saved_target_piece]
            in (if move_score > bp then
                  Running (if stack_depth st = 0 then st\<lparr>best_from := s, best_to := di\<rparr> else st)
                          move_score
                else Running st bp,
                made @ w @ unmade)))"

text \<open>Lines 326-436 as in \<open>ray_loop\<close>; the branches that leave before line 398 add no event.\<close>

function ray_loop_log ::
  "logged_recursion \<Rightarrow> locals \<Rightarrow> ChessState \<Rightarrow> int \<Rightarrow> int \<Rightarrow> outcome \<times> event list" where
  "ray_loop_log rec L st bp di0 =
    (let di = next_target L di0 in
     if off_board di then (Running st bp, [])
     else if \<not> target_ok (board st) (enp st) L di then (Running st bp, [])
     else if get_piece_type (board st ! nat di) = KING then
       (Returned 1 (king_capture_score st) st, [])
     else if validating st then
       (if si L = origin_hint L \<and> di = target_hint L then (Returned 0 0 st, [])
        else ray_loop_log rec L st bp di)
     else
       (case search_move_log rec (current_color L) (si L) (piece_at_origin L) st bp di of
          (out, w) \<Rightarrow>
            (case out of
               Running st' bp' \<Rightarrow>
                 if \<not> is_sliding_piece L \<or> (board st ! nat di) AND 0x0F \<noteq> EMPTY
                 then (Running st' bp', w)
                 else (case ray_loop_log rec L st' bp' di of (out', w') \<Rightarrow> (out', w @ w'))
             | other \<Rightarrow> (other, w))))"
  by pat_completeness auto
termination
proof (relation "measure (\<lambda>(rec, L, st, bp, di).
          if 0 < ray_step L then nat (128 - di) else nat (di + 1))", goal_cases)
  case 1
  then show ?case by simp
next
  case (2 rec L st bp di0 x)
  then show ?case using ray_step_nonzero [of L]
    by (auto simp: off_board_def BOARD_SIZE_def next_target_step)
next
  case (3 rec L st bp di0 x)
  then show ?case using ray_step_nonzero [of L]
    by (auto simp: off_board_def BOARD_SIZE_def next_target_step)
qed

declare ray_loop_log.simps [simp del]

text \<open>The counted loops, the body of \<open>play\<close>, \<open>play\<close> and \<open>play_validate\<close>, with the traces joined.\<close>

fun for_each_log ::
  "('a \<Rightarrow> ChessState \<Rightarrow> int \<Rightarrow> outcome \<times> event list) \<Rightarrow> 'a list \<Rightarrow> ChessState \<Rightarrow> int
   \<Rightarrow> outcome \<times> event list" where
  "for_each_log body [] st bp = (Running st bp, [])"
| "for_each_log body (x # xs) st bp =
    (case body x st bp of
       (out, w) \<Rightarrow>
         (case out of
            Running st' bp' \<Rightarrow> (case for_each_log body xs st' bp' of (out', w') \<Rightarrow> (out', w @ w'))
          | other \<Rightarrow> (other, w)))"

definition square_moves_log ::
  "logged_recursion \<Rightarrow> int \<Rightarrow> int \<Rightarrow> int \<Rightarrow> int \<Rightarrow> ChessState \<Rightarrow> int \<Rightarrow> outcome \<times> event list" where
  "square_moves_log rec oh th c s st bp =
    (case own_piece_idx (board st) c s of
       None \<Rightarrow> (Running st bp, [])
     | Some piece_idx \<Rightarrow>
         (let L = piece_locals (board st) oh th c s piece_idx
          in for_each_log (\<lambda>d st bp. ray_loop_log rec (L\<lparr>move_dir := d\<rparr>) st bp s)
               [0..movement_count L - 1] st bp))"

definition play_body_log ::
  "logged_recursion \<Rightarrow> ChessState \<Rightarrow> int \<Rightarrow> int \<Rightarrow> int
   \<Rightarrow> ((int \<times> int \<times> ChessState) \<times> event list) option" where
  "play_body_log rec st oh th c =
    (let bp = MIN_SCORE;
         saved_enp = enp st
     in case for_each_log (square_moves_log rec oh th c) [0..119] st bp of
          (out, w) \<Rightarrow>
            (case out of
               NoFuel \<Rightarrow> None
             | Returned r best_score st' \<Rightarrow> Some ((r, best_score, st'), w)
             | Running st' bp \<Rightarrow>
                 Some ((0, (if validating st' then ILLEGAL_MOVE_SCORE else bp),
                        st'\<lparr>enp := saved_enp\<rparr>), w)))"

fun play_fuel_log ::
  "nat \<Rightarrow> ChessState \<Rightarrow> int \<Rightarrow> int \<Rightarrow> int \<Rightarrow> ((int \<times> int \<times> ChessState) \<times> event list) option" where
  "play_fuel_log 0 st oh th c = None"
| "play_fuel_log (Suc n) st oh th c =
     play_body_log (\<lambda>st' c'. play_fuel_log n st' (- 1) (- 1) c') st oh th c"

definition play_log ::
  "ChessState \<Rightarrow> int \<Rightarrow> int \<Rightarrow> int \<Rightarrow> ((int \<times> int \<times> ChessState) \<times> event list) option" where
  "play_log st oh th c = play_fuel_log (Suc (nat (depth_limit st - stack_depth st))) st oh th c"

definition play_validate_log ::
  "ChessState \<Rightarrow> int \<Rightarrow> int \<Rightarrow> int \<Rightarrow> ((int \<times> ChessState) \<times> event list) option" where
  "play_validate_log st origin target c =
    (let st = st\<lparr>legal_move_check := 1\<rparr>;
         st = st\<lparr>depth_limit := MAX_DEPTH_PLY1\<rparr>;
         st = st\<lparr>stack_depth := 0\<rparr>
     in case play_log st origin target c of
          None \<Rightarrow> None
        | Some ((r, score, st'), w) \<Rightarrow> Some ((score, st'), w))"

text \<open>
  What it means for one step of the loops to leave no trace: it logs nothing, does not run
  out of allowed calls, and hands on the state it was given.
\<close>

definition quiet :: "ChessState \<Rightarrow> outcome \<times> event list \<Rightarrow> bool" where
  "quiet st res \<longleftrightarrow>
     snd res = [] \<and> (case fst res of NoFuel \<Rightarrow> False | Returned r sc st' \<Rightarrow> st' = st
                                    | Running st' bp' \<Rightarrow> st' = st)"

section \<open>Positions used as concrete inputs\<close>

text \<open>The standard initial position, as \<open>main\<close> builds it.\<close>

definition initial_state :: ChessState where
  "initial_state = init_chess (zero_state 0)"

text \<open>
  A white king on E1 and white rooks on A1 and H1, all unmoved, on an otherwise empty board.
\<close>

definition castle_state :: ChessState where
  "castle_state =
     (zero_state 0)\<lparr>board := (replicate 128 0)[0x74 := 0x1E, 0x77 := 0x1A, 0x70 := 0x1A]\<rparr>"

text \<open>A position given by its pieces, on the empty board with its frontier cells.\<close>

definition position :: "(nat \<times> 8 word) list \<Rightarrow> ChessState" where
  "position ps =
    (let st = create_board (zero_state 0)
     in st\<lparr>board := fold (\<lambda>(i, p) b. b[i := p]) ps (board st)\<rparr>)"

text \<open>
  A white rook on A7, the black king on A8 and the white king on E1; the depth limit is that
  of the computer's search.
\<close>

definition rook_king_state :: ChessState where
  "rook_king_state = (position [(0x10, 0x0A), (0x00, 0x06), (0x74, 0x0E)])\<lparr>depth_limit := MAX_DEPTH_PLY0\<rparr>"

text \<open>The same position as a node at the depth limit.\<close>

definition rook_king_leaf :: ChessState where
  "rook_king_leaf = rook_king_state\<lparr>depth_limit := 0\<rparr>"

text \<open>
  A white rook on A7 next to a black pawn on A8 and a black knight on B7, and the white
  king on E1; the search looks one reply ahead.
\<close>

definition skirmish_state :: ChessState where
  "skirmish_state =
     (position [(0x10, 0x0A), (0x00, 0x01), (0x11, 0x05), (0x74, 0x0E)])\<lparr>depth_limit := 2\<rparr>"

text \<open>
  A white knight on A8 whose two moves both end on the diagonal of a black bishop on D8;
  the white king on H1 is shut in by its pawns on G1, G2 and H2, the black king is on H8.
  The search looks two replies ahead.
\<close>

definition clamp_state :: ChessState where
  "clamp_state =
     (position [(0x00, 0x0D), (0x03, 0x03), (0x07, 0x06),
                (0x77, 0x0E), (0x76, 0x09), (0x66, 0x09), (0x67, 0x09)])\<lparr>depth_limit := 4\<rparr>"

text \<open>
  The black king on A8 shut in by its pawns on B8, A7 and B7, none of which has a move, and
  the white king on E1: the side to move, Black, has no move at all.
\<close>

definition stuck_state :: ChessState where
  "stuck_state = position [(0x00, 0x06), (0x01, 0x01), (0x10, 0x01), (0x11, 0x01), (0x74, 0x0E)]"

text \<open>The white king on D1 and a white rook, unmoved, on H1.\<close>

definition dking_state :: ChessState where
  "dking_state = position [(0x73, 0x0E), (0x77, 0x1A)]"

text \<open>White pawns on D5 and F5, a black pawn on D4.\<close>

definition pawn_state :: ChessState where
  "pawn_state = position [(0x33, 0x09), (0x43, 0x01), (0x35, 0x09)]"

text \<open>
  A black pawn on D7 that has not moved, white pawns on E6 and E4, the white king on E1 and
  the black king on E8.
\<close>

definition ep_state :: ChessState where
  "ep_state = position [(0x13, 0x11), (0x24, 0x09), (0x44, 0x09), (0x74, 0x0E), (0x04, 0x06)]"

section \<open>The loops visit the enumerated moves\<close>

text \<open>
  The search makes and unmakes each move on the one board, so every iteration of the loops
  sees the board of the entry to \<open>play\<close>. Hence the three loops do to the state what a single
  pass of \<open>visit\<close> over the list \<open>gen_moves\<close> of the entry board does.
\<close>

lemma board_restore: "(b[i := x, j := y])[j := b ! j, i := b ! i] = b"
proof (rule nth_equalityI)
  show "length ((b[i := x, j := y])[j := b ! j, i := b ! i]) = length b" by simp
next
  fix k assume "k < length ((b[i := x, j := y])[j := b ! j, i := b ! i])"
  then have "k < length b" by simp
  then show "(b[i := x, j := y])[j := b ! j, i := b ! i] ! k = b ! k"
    by (cases "k = i"; cases "k = j"; simp)
qed

lemma board_restore': "b[i := x, j := b ! j, i := b ! i] = b"
  using board_restore [of b i x j "b ! j"] by simp

lemma frame_eq_refl [simp]: "frame_eq st st"
  by (simp add: frame_eq_def)

lemma frame_eq_trans: "frame_eq a b \<Longrightarrow> frame_eq b c \<Longrightarrow> frame_eq a c"
  by (simp add: frame_eq_def)

lemma frame_eq_validating: "frame_eq st st' \<Longrightarrow> validating st' = validating st"
  by (simp add: validating_def frame_eq_def)

lemma frame_eq_rec_ok: "frame_eq st st' \<Longrightarrow> rec_ok rec st' = rec_ok rec st"
  by (simp add: rec_ok_def frame_eq_def)

lemma search_move_frame:
  assumes "rec_ok rec st"
  shows "\<exists>st' bp'. search_move rec c s p st bp di = Running st' bp' \<and> frame_eq st st'"
proof (cases "stack_depth st < depth_limit st")
  case True
  let ?s = "st\<lparr>board := (board st)[nat di := p AND 0x0F, nat s := EMPTY], stack_depth := stack_depth st + 2\<rparr>"
  have "depth_limit ?s = depth_limit st \<and> stack_depth ?s = stack_depth st + 2" by simp
  with assms True obtain r sc s' where r: "rec ?s (c XOR COLOR_MASK) = Some (r, sc, s')" and f: "frame_eq ?s s'"
    unfolding rec_ok_def by blast
  show ?thesis using True r f
    by (simp add: search_move_def Let_def frame_eq_def board_restore board_restore')
next
  case False
  then show ?thesis
    by (simp add: search_move_def Let_def frame_eq_def board_restore board_restore')
qed

lemma visit_pair:
  "visit rec oh th c (s, di) st bp =
    (if get_piece_type (board st ! nat di) = KING then Returned 1 (king_capture_score st) st
     else if validating st then
       (if s = oh \<and> di = th then Returned 0 0 st else Running st bp)
     else search_move rec c s (board st ! nat s) st bp di)"
  by (simp add: visit_def)

lemma visit_cases:
  assumes "validating st \<or> rec_ok rec st"
  shows "(\<exists>r sc. visit rec oh th c m st bp = Returned r sc st)
       \<or> (\<exists>st' bp'. visit rec oh th c m st bp = Running st' bp' \<and> frame_eq st st')"
proof (cases m)
  case (Pair s di)
  show ?thesis
  proof (cases "validating st")
    case True
    then show ?thesis using Pair by (simp add: visit_def)
  next
    case False
    with assms have "rec_ok rec st" by simp
    from search_move_frame [OF this, of c s "board st ! nat s" bp di]
    show ?thesis using Pair False by (auto simp add: visit_def)
  qed
qed

lemma ray_loop_visit:
  assumes "validating st \<or> rec_ok rec st" and "piece_at_origin L = board st ! nat (si L)"
  shows "ray_loop rec L st bp di0 =
         for_each (visit rec (origin_hint L) (target_hint L) (current_color L))
           (map (Pair (si L)) (ray_targets (validating st) (board st) (enp st) L di0)) st bp"
  using assms
proof (induction rec L st bp di0 rule: ray_loop.induct)
  case (1 rec L st bp di0)
  define di where "di = next_target L di0"
  let ?vis = "visit rec (origin_hint L) (target_hint L) (current_color L)"
  let ?tg = "\<lambda>st d. map (Pair (si L)) (ray_targets (validating st) (board st) (enp st) L d)"
  show ?case
  proof (cases "off_board di \<or> \<not> target_ok (board st) (enp st) L di")
    case True
    then show ?thesis
      by (auto simp add: ray_loop.simps [of rec L st bp di0] ray_targets.simps [of _ _ _ L di0] Let_def di_def)
  next
    case ok: False
    show ?thesis
    proof (cases "get_piece_type (board st ! nat di) = KING")
      case True
      then show ?thesis using ok
        by (simp add: ray_loop.simps [of rec L st bp di0] ray_targets.simps [of _ _ _ L di0] Let_def
            di_def [symmetric] visit_pair)
    next
      case nk: False
      show ?thesis
      proof (cases "validating st")
        case v: True
        show ?thesis
        proof (cases "si L = origin_hint L \<and> di = target_hint L")
          case True
          then show ?thesis using ok nk v
            by (simp add: ray_loop.simps [of rec L st bp di0] ray_targets.simps [of _ _ _ L di0] Let_def
                di_def [symmetric] visit_pair)
        next
          case False
          have "ray_loop rec L st bp di = for_each ?vis (?tg st di) st bp"
            using "1.IH"(1) [of di] ok nk v False "1.prems" by (simp add: di_def)
          then show ?thesis using ok nk v False
            by (auto simp add: ray_loop.simps [of rec L st bp di0] ray_targets.simps [of _ _ _ L di0] Let_def
                di_def [symmetric] visit_pair)
        qed
      next
        case nv: False
        with "1.prems" have rok: "rec_ok rec st" by simp
        from search_move_frame [OF rok, of "current_color L" "si L" "piece_at_origin L" bp di]
        obtain st' bp' where
          sm: "search_move rec (current_color L) (si L) (piece_at_origin L) st bp di = Running st' bp'"
          and fr: "frame_eq st st'" by blast
        have vis: "?vis (si L, di) st bp = Running st' bp'"
          using nk nv sm "1.prems"(2) by (simp add: visit_pair)
        have l: "ray_loop rec L st bp di0 =
                   (if \<not> is_sliding_piece L \<or> (board st ! nat di) AND 0x0F \<noteq> EMPTY
                    then Running st' bp' else ray_loop rec L st' bp' di)"
          using ok nk nv sm
          by (simp add: ray_loop.simps [of rec L st bp di0] Let_def di_def [symmetric])
        have t: "ray_targets (validating st) (board st) (enp st) L di0 =
                   di # (if is_sliding_piece L \<and> (board st ! nat di) AND 0x0F = EMPTY
                         then ray_targets (validating st) (board st) (enp st) L di else [])"
          using ok nv
          by (simp add: ray_targets.simps [of _ _ _ L di0] Let_def di_def [symmetric])
        show ?thesis
        proof (cases "\<not> is_sliding_piece L \<or> (board st ! nat di) AND 0x0F \<noteq> EMPTY")
          case True
          then have "ray_loop rec L st bp di0 = Running st' bp'" using l by simp
          moreover have "?tg st di0 = [(si L, di)]" using t True by auto
          ultimately show ?thesis using vis by simp
        next
          case False
          have "ray_loop rec L st' bp' di = for_each ?vis (?tg st' di) st' bp'"
          proof (rule "1.IH"(2) [of di st' bp'])
            show "di = next_target L di0" by (simp add: di_def)
            show "\<not> off_board di" using ok by simp
            show "\<not> \<not> target_ok (board st) (enp st) L di" using ok by simp
            show "get_piece_type (board st ! nat di) \<noteq> KING" by (rule nk)
            show "\<not> validating st" by (rule nv)
            show "search_move rec (current_color L) (si L) (piece_at_origin L) st bp di = Running st' bp'"
              by (rule sm)
            show "\<not> (\<not> is_sliding_piece L \<or> (board st ! nat di) AND 0x0F \<noteq> EMPTY)" by (rule False)
            show "validating st' \<or> rec_ok rec st'" using rok frame_eq_rec_ok [OF fr, of rec] by simp
            show "piece_at_origin L = board st' ! nat (si L)"
              using "1.prems"(2) fr by (simp add: frame_eq_def)
          qed
          moreover have "?tg st' di = ?tg st di"
            using fr frame_eq_validating [OF fr] by (simp add: frame_eq_def)
          moreover have "ray_loop rec L st bp di0 = ray_loop rec L st' bp' di"
            using l False by simp
          moreover have "?tg st di0 = (si L, di) # ?tg st di" using t False by simp
          ultimately show ?thesis using vis by simp
        qed
      qed
    qed
  qed
qed

lemma for_each_append:
  "for_each body (xs @ ys) st bp =
    (case for_each body xs st bp of
       Running st' bp' \<Rightarrow> for_each body ys st' bp'
     | other \<Rightarrow> other)"
  by (induction xs arbitrary: st bp) (auto split: outcome.splits)

lemma for_each_visit_cases:
  assumes "validating st \<or> rec_ok rec st"
  shows "(\<exists>r sc st'. for_each (visit rec oh th c) ms st bp = Returned r sc st' \<and> frame_eq st st')
       \<or> (\<exists>st' bp'. for_each (visit rec oh th c) ms st bp = Running st' bp' \<and> frame_eq st st')"
  using assms
proof (induction ms arbitrary: st bp)
  case Nil
  then show ?case by simp
next
  case (Cons m ms)
  from visit_cases [OF Cons.prems, of oh th c m bp]
  show ?case
  proof (elim disjE exE conjE)
    fix r sc
    assume "visit rec oh th c m st bp = Returned r sc st"
    then show ?thesis by simp
  next
    fix st' bp'
    assume v: "visit rec oh th c m st bp = Running st' bp'" and fr: "frame_eq st st'"
    have "validating st' \<or> rec_ok rec st'"
      using Cons.prems frame_eq_validating [OF fr] frame_eq_rec_ok [OF fr, of rec] by simp
    from Cons.IH [OF this, of bp'] show ?thesis
      using v fr by (auto intro: frame_eq_trans)
  qed
qed

lemma for_each_flatten:
  assumes "validating st \<or> rec_ok rec st"
    and "\<And>x st' bp. x \<in> set xs \<Longrightarrow> frame_eq st st' \<Longrightarrow>
           body x st' bp = for_each (visit rec oh th c) (g x) st' bp"
  shows "for_each body xs st bp = for_each (visit rec oh th c) (concat (map g xs)) st bp"
  using assms
proof (induction xs arbitrary: st bp)
  case Nil
  then show ?case by simp
next
  case (Cons x xs)
  have b: "body x st bp = for_each (visit rec oh th c) (g x) st bp"
    using Cons.prems(2) [of x st bp] by simp
  from for_each_visit_cases [OF Cons.prems(1), of oh th c "g x" bp]
  show ?case
  proof (elim disjE exE conjE)
    fix r sc st'
    assume "for_each (visit rec oh th c) (g x) st bp = Returned r sc st'"
    then show ?thesis using b by (simp add: for_each_append)
  next
    fix st' bp'
    assume v: "for_each (visit rec oh th c) (g x) st bp = Running st' bp'"
      and fr: "frame_eq st st'"
    have ok: "validating st' \<or> rec_ok rec st'"
      using Cons.prems(1) frame_eq_validating [OF fr] frame_eq_rec_ok [OF fr, of rec] by simp
    have "for_each body xs st' bp' = for_each (visit rec oh th c) (concat (map g xs)) st' bp'"
    proof (rule Cons.IH [OF ok])
      fix y st'' bp''
      assume "y \<in> set xs" and "frame_eq st' st''"
      then show "body y st'' bp'' = for_each (visit rec oh th c) (g y) st'' bp''"
        using Cons.prems(2) [of y st'' bp''] fr by (auto intro: frame_eq_trans)
    qed
    then show ?thesis using b v by (simp add: for_each_append)
  qed
qed

lemma ray_targets_hints:
  "ray_targets v b e (L\<lparr>origin_hint := oh, target_hint := th\<rparr>) di0 = ray_targets v b e L di0"
proof (induction v b e L di0 rule: ray_targets.induct)
  case (1 v b e L di0)
  let ?L = "L\<lparr>origin_hint := oh, target_hint := th\<rparr>"
  have n: "next_target ?L di0 = next_target L di0" by (simp add: next_target_def)
  have t: "\<And>d. target_ok b e ?L d = target_ok b e L d" by (simp add: target_ok_def)
  show ?case
    using "1.IH" [of "next_target L di0"]
    by (simp add: ray_targets.simps [of v b e ?L di0] ray_targets.simps [of v b e L di0] n t Let_def)
qed

lemma piece_locals_hints:
  "(piece_locals b oh th c s idx)\<lparr>move_dir := d\<rparr> =
   ((piece_locals b 0 0 c s idx)\<lparr>move_dir := d\<rparr>)\<lparr>origin_hint := oh, target_hint := th\<rparr>"
  by (simp add: piece_locals_def split: prod.splits)

lemma piece_locals_fields [simp]:
  "si (piece_locals b oh th c s idx) = s"
  "origin_hint (piece_locals b oh th c s idx) = oh"
  "target_hint (piece_locals b oh th c s idx) = th"
  "current_color (piece_locals b oh th c s idx) = c"
  "piece_at_origin (piece_locals b oh th c s idx) = b ! nat s"
  by (simp_all add: piece_locals_def split: prod.splits)

lemma piece_locals_count:
  "movement_count (piece_locals b oh th c s idx) = movement_count (piece_locals b 0 0 c s idx)"
  by (simp add: piece_locals_def split: prod.splits)

lemma square_moves_visit:
  assumes "validating st \<or> rec_ok rec st"
  shows "square_moves rec oh th c s st bp =
         for_each (visit rec oh th c) (piece_moves (validating st) (board st) (enp st) c s) st bp"
proof (cases "own_piece_idx (board st) c s")
  case None
  then show ?thesis by (simp add: square_moves_def piece_moves_def)
next
  case (Some idx)
  define L where "L = piece_locals (board st) oh th c s idx"
  define L0 where "L0 = piece_locals (board st) 0 0 c s idx"
  have mc: "movement_count L = movement_count L0"
    unfolding L_def L0_def by (rule piece_locals_count)
  have "for_each (\<lambda>d st bp. ray_loop rec (L\<lparr>move_dir := d\<rparr>) st bp s) [0..movement_count L - 1] st bp =
        for_each (visit rec oh th c)
          (concat (map (\<lambda>d. map (Pair s) (ray_targets (validating st) (board st) (enp st) (L0\<lparr>move_dir := d\<rparr>) s))
             [0..movement_count L - 1])) st bp"
  proof (rule for_each_flatten [OF assms])
    fix d st' bp'
    assume fr: "frame_eq st st'"
    have ok: "validating st' \<or> rec_ok rec st'"
      using assms frame_eq_validating [OF fr] frame_eq_rec_ok [OF fr, of rec] by simp
    have pao: "piece_at_origin (L\<lparr>move_dir := d\<rparr>) = board st' ! nat (si (L\<lparr>move_dir := d\<rparr>))"
      using fr by (simp add: L_def frame_eq_def)
    have "ray_targets (validating st') (board st') (enp st') (L\<lparr>move_dir := d\<rparr>) s =
          ray_targets (validating st) (board st) (enp st) (L0\<lparr>move_dir := d\<rparr>) s"
      using fr frame_eq_validating [OF fr]
      by (simp add: L_def L0_def piece_locals_hints [where oh = oh and th = th] ray_targets_hints frame_eq_def)
    then show "ray_loop rec (L\<lparr>move_dir := d\<rparr>) st' bp' s =
          for_each (visit rec oh th c)
            (map (Pair s) (ray_targets (validating st) (board st) (enp st) (L0\<lparr>move_dir := d\<rparr>) s)) st' bp'"
      using ray_loop_visit [OF ok pao, of bp' s] by (simp add: L_def)
  qed
  then show ?thesis
    using Some mc by (simp add: square_moves_def piece_moves_def Let_def L_def L0_def)
qed

lemma play_body_visit:
  assumes "validating st \<or> rec_ok rec st"
  shows "play_body rec st oh th c =
         finish st (for_each (visit rec oh th c)
                      (gen_moves (validating st) (board st) (enp st) c) st MIN_SCORE)"
proof -
  have "for_each (square_moves rec oh th c) [0..119] st MIN_SCORE =
        for_each (visit rec oh th c)
          (concat (map (piece_moves (validating st) (board st) (enp st) c) [0..119])) st MIN_SCORE"
  proof (rule for_each_flatten [OF assms])
    fix x st' bp'
    assume fr: "frame_eq st st'"
    have ok: "validating st' \<or> rec_ok rec st'"
      using assms frame_eq_validating [OF fr] frame_eq_rec_ok [OF fr, of rec] by simp
    show "square_moves rec oh th c x st' bp' =
          for_each (visit rec oh th c) (piece_moves (validating st) (board st) (enp st) c x) st' bp'"
      using square_moves_visit [OF ok, of oh th c x bp'] fr frame_eq_validating [OF fr]
      by (simp add: frame_eq_def)
  qed
  then show ?thesis
    by (simp add: play_body_def finish_def gen_moves_def Let_def)
qed

lemma play_body_frame:
  assumes "validating st \<or> rec_ok rec st"
  shows "\<exists>r sc st'. play_body rec st oh th c = Some (r, sc, st') \<and> frame_eq st st'"
  using for_each_visit_cases [OF assms, of oh th c "gen_moves (validating st) (board st) (enp st) c" MIN_SCORE]
  by (auto simp add: play_body_visit [OF assms] finish_def frame_eq_def)

lemma play_fuel_frame:
  "nat (depth_limit st - stack_depth st) < n \<Longrightarrow>
   \<exists>r sc st'. play_fuel n st oh th c = Some (r, sc, st') \<and> frame_eq st st'"
proof (induction n arbitrary: st oh th c)
  case 0
  then show ?case by simp
next
  case (Suc n)
  have "rec_ok (\<lambda>st' c'. play_fuel n st' (- 1) (- 1) c') st"
    unfolding rec_ok_def
  proof (intro impI allI, elim conjE)
    fix s :: ChessState and c' :: int
    assume "stack_depth st < depth_limit st" "depth_limit s = depth_limit st"
      "stack_depth s = stack_depth st + 2"
    with Suc.prems have "nat (depth_limit s - stack_depth s) < n" by simp
    from Suc.IH [OF this]
    show "\<exists>r sc s'. play_fuel n s (- 1) (- 1) c' = Some (r, sc, s') \<and> frame_eq s s'" .
  qed
  then show ?case using play_body_frame by simp
qed

subsection \<open>The number of allowed calls does not matter once it is large enough\<close>

lemma frame_eq_rec_agree: "frame_eq st st' \<Longrightarrow> rec_agree rec rec' st' = rec_agree rec rec' st"
  by (simp add: rec_agree_def frame_eq_def)

lemma rec_agree_ok: "rec_agree rec rec' st \<Longrightarrow> rec_ok rec st \<Longrightarrow> rec_ok rec' st"
  by (simp add: rec_agree_def rec_ok_def)

lemma search_move_cong:
  assumes "rec_agree rec rec' st"
  shows "search_move rec c s p st bp di = search_move rec' c s p st bp di"
proof (cases "stack_depth st < depth_limit st")
  case True
  let ?s = "st\<lparr>board := (board st)[nat di := p AND 0x0F, nat s := EMPTY], stack_depth := stack_depth st + 2\<rparr>"
  have "depth_limit ?s = depth_limit st \<and> stack_depth ?s = stack_depth st + 2" by simp
  with assms True have "rec ?s (c XOR COLOR_MASK) = rec' ?s (c XOR COLOR_MASK)"
    unfolding rec_agree_def by blast
  then show ?thesis by (simp add: search_move_def Let_def)
next
  case False
  then show ?thesis by (simp add: search_move_def Let_def)
qed

lemma visit_cong:
  assumes "rec_agree rec rec' st"
  shows "visit rec oh th c m st bp = visit rec' oh th c m st bp"
  using search_move_cong [OF assms] by (cases m) (simp add: visit_pair)

lemma for_each_visit_cong:
  assumes "validating st \<or> rec_ok rec st" and "rec_agree rec rec' st"
  shows "for_each (visit rec oh th c) ms st bp = for_each (visit rec' oh th c) ms st bp"
  using assms
proof (induction ms arbitrary: st bp)
  case Nil
  then show ?case by simp
next
  case (Cons m ms)
  have e: "visit rec' oh th c m st bp = visit rec oh th c m st bp"
    using visit_cong [OF Cons.prems(2)] by simp
  from visit_cases [OF Cons.prems(1), of oh th c m bp]
  show ?case
  proof (elim disjE exE conjE)
    fix r sc
    assume "visit rec oh th c m st bp = Returned r sc st"
    then show ?thesis using e by simp
  next
    fix st' bp'
    assume v: "visit rec oh th c m st bp = Running st' bp'" and fr: "frame_eq st st'"
    have "validating st' \<or> rec_ok rec st'"
      using Cons.prems(1) frame_eq_validating [OF fr] frame_eq_rec_ok [OF fr, of rec] by simp
    moreover have "rec_agree rec rec' st'"
      using Cons.prems(2) frame_eq_rec_agree [OF fr, of rec rec'] by simp
    ultimately have "for_each (visit rec oh th c) ms st' bp' = for_each (visit rec' oh th c) ms st' bp'"
      by (rule Cons.IH)
    then show ?thesis using v e by simp
  qed
qed

lemma play_body_cong:
  assumes "validating st \<or> rec_ok rec st" and "rec_agree rec rec' st"
  shows "play_body rec st oh th c = play_body rec' st oh th c"
proof -
  have "validating st \<or> rec_ok rec' st"
    using assms rec_agree_ok by blast
  then show ?thesis
    using for_each_visit_cong [OF assms] play_body_visit [OF assms(1)] by (simp add: play_body_visit)
qed

lemma rec_ok_play_fuel:
  assumes "nat (depth_limit st - stack_depth st) < Suc n"
  shows "rec_ok (\<lambda>st' c'. play_fuel n st' (- 1) (- 1) c') st"
  unfolding rec_ok_def
proof (intro impI allI, elim conjE)
  fix s :: ChessState and c' :: int
  assume "stack_depth st < depth_limit st" "depth_limit s = depth_limit st"
    "stack_depth s = stack_depth st + 2"
  with assms have "nat (depth_limit s - stack_depth s) < n" by simp
  then show "\<exists>r sc s'. play_fuel n s (- 1) (- 1) c' = Some (r, sc, s') \<and> frame_eq s s'"
    by (rule play_fuel_frame)
qed

lemma play_fuel_enough:
  "nat (depth_limit st - stack_depth st) < n \<Longrightarrow> nat (depth_limit st - stack_depth st) < m \<Longrightarrow>
   play_fuel n st oh th c = play_fuel m st oh th c"
proof (induction n arbitrary: m st oh th c)
  case 0
  then show ?case by simp
next
  case (Suc n)
  from Suc.prems(2) obtain m' where m: "m = Suc m'" by (cases m) auto
  have "rec_agree (\<lambda>st' c'. play_fuel n st' (- 1) (- 1) c') (\<lambda>st' c'. play_fuel m' st' (- 1) (- 1) c') st"
    unfolding rec_agree_def
  proof (intro impI allI, elim conjE)
    fix s :: ChessState and c' :: int
    assume "stack_depth st < depth_limit st" "depth_limit s = depth_limit st"
      "stack_depth s = stack_depth st + 2"
    with Suc.prems m have "nat (depth_limit s - stack_depth s) < n"
      "nat (depth_limit s - stack_depth s) < m'" by simp_all
    then show "play_fuel n s (- 1) (- 1) c' = play_fuel m' s (- 1) (- 1) c'"
      by (rule Suc.IH)
  qed
  with rec_ok_play_fuel [OF Suc.prems(1)] show ?case
    using play_body_cong m by simp
qed

lemma play_fuel_play:
  "nat (depth_limit st - stack_depth st) < n \<Longrightarrow> play_fuel n st oh th c = play st oh th c"
  unfolding play_def by (rule play_fuel_enough) simp_all

lemma rec_ok_play: "rec_ok play_rec st"
  unfolding rec_ok_def play_rec_def play_def
  by (intro impI allI play_fuel_frame) simp

text \<open>
  Hence \<open>play\<close> satisfies the recursion of the source: it is its own body, with itself (called
  with the hints \<open>-1\<close>) as the recursive call.
\<close>

lemma play_unfold: "play st oh th c = play_body play_rec st oh th c"
proof -
  define k where "k = nat (depth_limit st - stack_depth st)"
  have "rec_agree (\<lambda>st' c'. play_fuel k st' (- 1) (- 1) c') play_rec st"
    unfolding rec_agree_def play_rec_def
  proof (intro impI allI, elim conjE)
    fix s :: ChessState and c' :: int
    assume "stack_depth st < depth_limit st" "depth_limit s = depth_limit st"
      "stack_depth s = stack_depth st + 2"
    then have "nat (depth_limit s - stack_depth s) < k" by (simp add: k_def)
    then show "play_fuel k s (- 1) (- 1) c' = play s (- 1) (- 1) c'"
      by (rule play_fuel_play)
  qed
  moreover have "rec_ok (\<lambda>st' c'. play_fuel k st' (- 1) (- 1) c') st"
    by (rule rec_ok_play_fuel) (simp add: k_def)
  ultimately show ?thesis
    using play_body_cong by (simp add: play_def k_def)
qed

text \<open>
  And every call of \<open>play\<close> is one pass of \<open>visit\<close> over the moves generated from the board of
  entry, followed by the end of the function.
\<close>

lemma play_visit:
  "play st oh th c =
   finish st (for_each (visit play_rec oh th c)
                (gen_moves (validating st) (board st) (enp st) c) st MIN_SCORE)"
  using play_body_visit [of st play_rec oh th c] rec_ok_play [of st] by (simp add: play_unfold)

subsection \<open>Early returns\<close>

lemma visit_validating:
  assumes "validating st"
  shows "visit rec oh th c m st bp =
    (if is_king_target (board st) m then Returned 1 (king_capture_score st) st
     else if m = (oh, th) then Returned 0 0 st else Running st bp)"
  using assms by (cases m) (simp add: visit_pair is_king_target_def)

lemma for_each_validating:
  assumes "validating st"
  shows "for_each (visit rec oh th c) ms st bp =
    (case find (\<lambda>m. is_king_target (board st) m \<or> m = (oh, th)) ms of
       None \<Rightarrow> Running st bp
     | Some m \<Rightarrow> if is_king_target (board st) m then Returned 1 (king_capture_score st) st
                else Returned 0 0 st)"
  by (induction ms) (simp_all add: visit_validating [OF assms])

lemma play_body_validating:
  assumes "validating st"
  shows "play_body rec st oh th c =
    Some (case find (\<lambda>m. is_king_target (board st) m \<or> m = (oh, th))
                 (gen_moves True (board st) (enp st) c) of
            None \<Rightarrow> (0, ILLEGAL_MOVE_SCORE, st)
          | Some m \<Rightarrow> if is_king_target (board st) m then (1, king_capture_score st, st)
                     else (0, 0, st))"
  using assms
  by (simp add: play_body_visit for_each_validating finish_def split: option.splits)

lemma visit_returned:
  assumes "validating st \<or> rec_ok rec st"
    and "visit rec oh th c m st bp = Returned r sc st'"
  shows "st' = st \<and> ((r = 1 \<and> sc = king_capture_score st \<and> is_king_target (board st) m)
       \<or> (r = 0 \<and> sc = 0 \<and> validating st \<and> m = (oh, th)))"
proof (cases "validating st")
  case True
  then show ?thesis using assms(2) by (auto simp add: visit_validating split: if_splits)
next
  case False
  with assms(1) have "rec_ok rec st" by simp
  from search_move_frame [OF this, of c "fst m" "board st ! nat (fst m)" bp "snd m"]
  show ?thesis using assms(2) False
    by (cases m) (auto simp add: visit_pair is_king_target_def split: if_splits)
qed

lemma for_each_returned:
  assumes "validating st \<or> rec_ok rec st"
    and "for_each (visit rec oh th c) ms st bp = Returned r sc st'"
  shows "(r = 1 \<and> sc = king_capture_score st \<and> (\<exists>m \<in> set ms. is_king_target (board st) m))
       \<or> (r = 0 \<and> sc = 0 \<and> validating st \<and> (oh, th) \<in> set ms)"
  using assms
proof (induction ms arbitrary: st bp)
  case Nil
  then show ?case by simp
next
  case (Cons m ms)
  from visit_cases [OF Cons.prems(1), of oh th c m bp]
  show ?case
  proof (elim disjE exE conjE)
    fix r' sc'
    assume v: "visit rec oh th c m st bp = Returned r' sc' st"
    with Cons.prems(2) have "r' = r" "sc' = sc" by simp_all
    with visit_returned [OF Cons.prems(1) v] show ?thesis by auto
  next
    fix st1 bp1
    assume v: "visit rec oh th c m st bp = Running st1 bp1" and fr: "frame_eq st st1"
    have ok: "validating st1 \<or> rec_ok rec st1"
      using Cons.prems(1) frame_eq_validating [OF fr] frame_eq_rec_ok [OF fr, of rec] by simp
    have "for_each (visit rec oh th c) ms st1 bp1 = Returned r sc st'"
      using Cons.prems(2) v by simp
    from Cons.IH [OF ok this] show ?thesis
      using fr frame_eq_validating [OF fr] by (auto simp add: frame_eq_def king_capture_score_def)
  qed
qed

subsection \<open>Validation\<close>

lemma ray_targets_subset:
  "set (ray_targets False b e L di0) \<subseteq> set (ray_targets True b e L di0)"
proof (induction True b e L di0 rule: ray_targets.induct)
  case (1 b e L di0)
  show ?case
    using "1.hyps" [of "next_target L di0"]
    by (auto simp add: ray_targets.simps [of True b e L di0] ray_targets.simps [of False b e L di0] Let_def)
qed

lemma gen_moves_subset:
  "set (gen_moves False b e c) \<subseteq> set (gen_moves True b e c)"
  using ray_targets_subset
  by (fastforce simp add: gen_moves_def piece_moves_def Let_def split: option.splits)

lemma validating_play_validate [simp]:
  "validating (st\<lparr>legal_move_check := 1, depth_limit := d, stack_depth := 0\<rparr>)"
  by (simp add: validating_def)

lemma play_validate_find:
  "play_validate st origin target c =
    Some (case find (\<lambda>m. is_king_target (board st) m \<or> m = (origin, target))
                 (gen_moves True (board st) (enp st) c) of
            None \<Rightarrow> ILLEGAL_MOVE_SCORE
          | Some m \<Rightarrow> if is_king_target (board st) m then KING_CAPTURE_SCORE else 0,
          st\<lparr>legal_move_check := 1, depth_limit := MAX_DEPTH_PLY1, stack_depth := 0\<rparr>)"
  by (simp add: play_validate_def play_unfold play_body_validating king_capture_score_def
      MAX_DEPTH_PLY1_def split: option.splits)

subsection \<open>The recorded best move does not influence the search\<close>

lemma frame_eq_sym: "frame_eq a b \<Longrightarrow> frame_eq b a"
  by (simp add: frame_eq_def)

lemma frame_eq_rec_indep: "frame_eq st st' \<Longrightarrow> rec_indep rec st' = rec_indep rec st"
  by (simp add: rec_indep_def frame_eq_def)

lemma search_move_rel:
  assumes fr: "frame_eq a b" and ok: "rec_ok rec a" and ind: "rec_indep rec a"
  shows "outcome_rel (search_move rec c s p a bp di) (search_move rec c s p b bp di)"
proof (cases "stack_depth a < depth_limit a")
  case True
  let ?a = "a\<lparr>board := (board a)[nat di := p AND 0x0F, nat s := EMPTY], stack_depth := stack_depth a + 2\<rparr>"
  let ?b = "b\<lparr>board := (board b)[nat di := p AND 0x0F, nat s := EMPTY], stack_depth := stack_depth b + 2\<rparr>"
  have fab: "frame_eq ?a ?b" using fr by (simp add: frame_eq_def)
  have da: "depth_limit ?a = depth_limit a \<and> stack_depth ?a = stack_depth a + 2" by simp
  have db: "depth_limit ?b = depth_limit a \<and> stack_depth ?b = stack_depth a + 2"
    using fr by (simp add: frame_eq_def)
  from ok True da obtain r sc a' where ra: "rec ?a (c XOR COLOR_MASK) = Some (r, sc, a')"
    and fa: "frame_eq ?a a'" unfolding rec_ok_def by blast
  from ok True db obtain r' sc' b' where rb: "rec ?b (c XOR COLOR_MASK) = Some (r', sc', b')"
    and fb: "frame_eq ?b b'" unfolding rec_ok_def by blast
  from ind True fab da have "verdict (rec ?a (c XOR COLOR_MASK)) = verdict (rec ?b (c XOR COLOR_MASK))"
    unfolding rec_indep_def by blast
  with ra rb have e: "sc' = sc" by (simp add: verdict_def)
  have tb: "stack_depth b < depth_limit b" using True fr by (simp add: frame_eq_def)
  show ?thesis
    using True tb ra rb e fa fb fr
    by (simp add: search_move_def Let_def frame_eq_def)
next
  case False
  then have "\<not> stack_depth b < depth_limit b" using fr by (simp add: frame_eq_def)
  then show ?thesis using False fr
    by (simp add: search_move_def Let_def frame_eq_def)
qed

lemma visit_rel:
  assumes fr: "frame_eq a b" and ok: "validating a \<or> rec_ok rec a" and ind: "rec_indep rec a"
  shows "outcome_rel (visit rec oh th c m a bp) (visit rec oh th c m b bp)"
proof (cases "validating a")
  case True
  then have "validating b" using frame_eq_validating [OF fr] by simp
  then show ?thesis using True fr
    by (simp add: visit_validating frame_eq_def king_capture_score_def)
next
  case False
  then have nb: "\<not> validating b" using frame_eq_validating [OF fr] by simp
  from False ok have rok: "rec_ok rec a" by simp
  obtain s di where m: "m = (s, di)" by (cases m)
  have bb: "board b = board a" "stack_depth b = stack_depth a" using fr by (simp_all add: frame_eq_def)
  show ?thesis
    using search_move_rel [OF fr rok ind, of c s "board a ! nat s" bp di] False nb fr
    by (simp add: m visit_pair bb king_capture_score_def)
qed

lemma for_each_visit_rel:
  assumes "frame_eq a b" and "validating a \<or> rec_ok rec a" and "rec_indep rec a"
  shows "outcome_rel (for_each (visit rec oh th c) ms a bp) (for_each (visit rec oh th c) ms b bp)"
  using assms
proof (induction ms arbitrary: a b bp)
  case Nil
  then show ?case by simp
next
  case (Cons m ms)
  from visit_rel [OF Cons.prems, of oh th c m bp]
  show ?case
  proof (cases "visit rec oh th c m a bp")
    case NoFuel
    then show ?thesis using visit_rel [OF Cons.prems, of oh th c m bp] by simp
  next
    case (Returned r sc x)
    then show ?thesis using visit_rel [OF Cons.prems, of oh th c m bp]
      by (cases "visit rec oh th c m b bp") simp_all
  next
    case (Running x bp')
    then obtain y where vb: "visit rec oh th c m b bp = Running y bp'" and fxy: "frame_eq x y"
      using visit_rel [OF Cons.prems, of oh th c m bp]
      by (cases "visit rec oh th c m b bp") simp_all
    from visit_cases [OF Cons.prems(2), of oh th c m bp] Running
    have fax: "frame_eq a x" by auto
    have "validating x \<or> rec_ok rec x"
      using Cons.prems(2) frame_eq_validating [OF fax] frame_eq_rec_ok [OF fax, of rec] by simp
    moreover have "rec_indep rec x"
      using Cons.prems(3) frame_eq_rec_indep [OF fax, of rec] by simp
    ultimately have "outcome_rel (for_each (visit rec oh th c) ms x bp') (for_each (visit rec oh th c) ms y bp')"
      using fxy by (intro Cons.IH)
    then show ?thesis using Running vb by simp
  qed
qed

lemma play_body_rel:
  assumes fr: "frame_eq a b" and ok: "validating a \<or> rec_ok rec a" and ind: "rec_indep rec a"
  shows "verdict (play_body rec a oh th c) = verdict (play_body rec b oh th c)"
proof -
  have okb: "validating b \<or> rec_ok rec b"
    using ok frame_eq_validating [OF fr] frame_eq_rec_ok [OF fr, of rec] by simp
  have g: "gen_moves (validating b) (board b) (enp b) c = gen_moves (validating a) (board a) (enp a) c"
    using fr frame_eq_validating [OF fr] by (simp add: frame_eq_def)
  let ?oa = "for_each (visit rec oh th c) (gen_moves (validating a) (board a) (enp a) c) a MIN_SCORE"
  let ?ob = "for_each (visit rec oh th c) (gen_moves (validating a) (board a) (enp a) c) b MIN_SCORE"
  have "outcome_rel ?oa ?ob" using assms by (rule for_each_visit_rel)
  then have "verdict (finish a ?oa) = verdict (finish b ?ob)"
    using frame_eq_validating
    by (cases ?oa; cases ?ob) (auto simp add: finish_def verdict_def)
  then show ?thesis
    by (simp add: play_body_visit [OF ok] play_body_visit [OF okb] g)
qed

lemma play_fuel_rel:
  "frame_eq a b \<Longrightarrow> nat (depth_limit a - stack_depth a) < n \<Longrightarrow>
   verdict (play_fuel n a oh th c) = verdict (play_fuel n b oh th c)"
proof (induction n arbitrary: a b oh th c)
  case 0
  then show ?case by simp
next
  case (Suc n)
  let ?rec = "\<lambda>st' c'. play_fuel n st' (- 1) (- 1) c'"
  have "rec_indep ?rec a"
    unfolding rec_indep_def
  proof (intro impI allI, elim conjE)
    fix s s' :: ChessState and c' :: int
    assume "stack_depth a < depth_limit a" "frame_eq s s'" "depth_limit s = depth_limit a"
      "stack_depth s = stack_depth a + 2"
    with Suc.prems(2) have "nat (depth_limit s - stack_depth s) < n" by simp
    with \<open>frame_eq s s'\<close>
    show "verdict (play_fuel n s (- 1) (- 1) c') = verdict (play_fuel n s' (- 1) (- 1) c')"
      by (rule Suc.IH)
  qed
  with Suc.prems(1) rec_ok_play_fuel [OF Suc.prems(2)] show ?case
    using play_body_rel by simp
qed

lemma play_rel:
  assumes "frame_eq a b"
  shows "verdict (play a oh th c) = verdict (play b oh th c)"
proof -
  have "depth_limit b - stack_depth b = depth_limit a - stack_depth a"
    using assms by (simp add: frame_eq_def)
  then show ?thesis
    using play_fuel_rel [OF assms, of "Suc (nat (depth_limit a - stack_depth a))" oh th c]
    by (simp add: play_def)
qed

subsection \<open>Below the root the state is given back unchanged\<close>

lemma search_move_exact:
  assumes "rec_keep rec st" and "stack_depth st \<noteq> 0"
  shows "\<exists>bp'. search_move rec c s p st bp di = Running st bp'"
proof (cases "stack_depth st < depth_limit st")
  case True
  let ?s = "st\<lparr>board := (board st)[nat di := p AND 0x0F, nat s := EMPTY], stack_depth := stack_depth st + 2\<rparr>"
  have "depth_limit ?s = depth_limit st \<and> stack_depth ?s = stack_depth st + 2" by simp
  with assms True obtain r sc where r: "rec ?s (c XOR COLOR_MASK) = Some (r, sc, ?s)"
    unfolding rec_keep_def by blast
  show ?thesis using True r assms(2)
    by (simp add: search_move_def Let_def board_restore board_restore')
next
  case False
  then show ?thesis using assms(2)
    by (simp add: search_move_def Let_def board_restore board_restore')
qed

lemma visit_exact:
  assumes "rec_keep rec st" and "stack_depth st \<noteq> 0"
  shows "(\<exists>r sc. visit rec oh th c m st bp = Returned r sc st)
       \<or> (\<exists>bp'. visit rec oh th c m st bp = Running st bp')"
proof -
  have "\<not> validating st" using assms(2) by (simp add: validating_def)
  then show ?thesis
    using search_move_exact [OF assms, of c "fst m" "board st ! nat (fst m)" bp "snd m"]
    by (cases m) (auto simp add: visit_pair)
qed

lemma for_each_exact:
  assumes "rec_keep rec st" and "stack_depth st \<noteq> 0"
  shows "(\<exists>r sc. for_each (visit rec oh th c) ms st bp = Returned r sc st)
       \<or> (\<exists>bp'. for_each (visit rec oh th c) ms st bp = Running st bp')"
proof (induction ms arbitrary: bp)
  case Nil
  then show ?case by simp
next
  case (Cons m ms)
  from visit_exact [OF assms, of oh th c m bp] show ?case
  proof (elim disjE exE)
    fix r sc
    assume "visit rec oh th c m st bp = Returned r sc st"
    then show ?thesis by simp
  next
    fix bp'
    assume "visit rec oh th c m st bp = Running st bp'"
    then show ?thesis using Cons.IH [of bp'] by simp
  qed
qed

lemma play_fuel_exact:
  "0 < stack_depth st \<Longrightarrow> nat (depth_limit st - stack_depth st) < n \<Longrightarrow>
   \<exists>r sc. play_fuel n st oh th c = Some (r, sc, st)"
proof (induction n arbitrary: st oh th c)
  case 0
  then show ?case by simp
next
  case (Suc n)
  let ?rec = "\<lambda>st' c'. play_fuel n st' (- 1) (- 1) c'"
  have keep: "rec_keep ?rec st"
    unfolding rec_keep_def
  proof (intro impI allI, elim conjE)
    fix s :: ChessState and c' :: int
    assume "stack_depth st < depth_limit st" "depth_limit s = depth_limit st"
      "stack_depth s = stack_depth st + 2"
    with Suc.prems have "0 < stack_depth s" "nat (depth_limit s - stack_depth s) < n" by simp_all
    then show "\<exists>r sc. play_fuel n s (- 1) (- 1) c' = Some (r, sc, s)"
      by (rule Suc.IH)
  qed
  have nz: "stack_depth st \<noteq> 0" using Suc.prems(1) by simp
  have ok: "validating st \<or> rec_ok ?rec st"
    using rec_ok_play_fuel [OF Suc.prems(2)] by simp
  from for_each_exact [OF keep nz, of oh th c "gen_moves (validating st) (board st) (enp st) c" MIN_SCORE]
  show ?case
    by (auto simp add: play_body_visit [OF ok] finish_def)
qed

lemma play_exact:
  assumes "0 < stack_depth st"
  shows "\<exists>r sc. play st oh th c = Some (r, sc, st)"
  unfolding play_def using assms by (rule play_fuel_exact) simp

subsection \<open>One move of the search\<close>

lemma frame_eq_after_move: "frame_eq a b \<Longrightarrow> frame_eq (after_move a m) (after_move b m)"
  by (simp add: frame_eq_def after_move_def)

lemma reply_score_frame: "frame_eq a b \<Longrightarrow> reply_score b c m = reply_score a c m"
  using play_rel [OF frame_eq_after_move, of a b m "- 1" "- 1" "c XOR COLOR_MASK"]
  by (auto simp add: reply_score_def verdict_def split: option.splits)

lemma move_score_frame: "frame_eq a b \<Longrightarrow> move_score b c m = move_score a c m"
  using reply_score_frame [of a b c m] by (simp add: move_score_def frame_eq_def)

lemma visit_search_step:
  assumes nv: "\<not> validating st" and nk: "\<not> is_king_target (board st) m" and sd: "0 \<le> stack_depth st"
  shows "visit play_rec oh th c m st bp =
          (if move_score st c m > bp then Running (record_best st m) (move_score st c m)
           else Running st bp)"
proof -
  obtain s di where m: "m = (s, di)" by (cases m)
  have v: "visit play_rec oh th c (s, di) st bp = search_move play_rec c s (board st ! nat s) st bp di"
    using nv nk by (simp add: m visit_pair is_king_target_def)
  show ?thesis
  proof (cases "stack_depth st < depth_limit st")
    case True
    have "0 < stack_depth (after_move st m)" using sd by (simp add: after_move_def)
    from play_exact [OF this, of "- 1" "- 1" "c XOR COLOR_MASK"]
    obtain r sc where p: "play (after_move st m) (- 1) (- 1) (c XOR COLOR_MASK) = Some (r, sc, after_move st m)"
      by blast
    then have rs: "reply_score st c m = sc" by (simp add: reply_score_def)
    have p': "play_rec (st\<lparr>board := (board st)[nat di := board st ! nat s AND 0x0F, nat s := EMPTY],
                          stack_depth := stack_depth st + 2\<rparr>) (c XOR COLOR_MASK)
              = Some (r, sc, st\<lparr>board := (board st)[nat di := board st ! nat s AND 0x0F, nat s := EMPTY],
                          stack_depth := stack_depth st + 2\<rparr>)"
      using p by (simp add: play_rec_def after_move_def m)
    show ?thesis
      using True p' rs
      by (simp add: v search_move_def Let_def move_score_def material_def record_best_def m
          board_restore board_restore')
  next
    case False
    then show ?thesis
      by (simp add: v search_move_def Let_def move_score_def material_def record_best_def m
          board_restore board_restore')
  qed
qed

subsection \<open>The search keeps the first best move\<close>

lemma fold_max_ge: "(a::int) \<le> fold max xs a"
proof (induction xs arbitrary: a)
  case Nil
  then show ?case by simp
next
  case (Cons x xs)
  have "a \<le> max x a" by simp
  also have "\<dots> \<le> fold max xs (max x a)" by (rule Cons.IH)
  finally show ?case by simp
qed

lemma record_best_twice [simp]: "record_best (record_best st m) m' = record_best st m'"
  by (simp add: record_best_def)

lemma frame_eq_record_best: "frame_eq st (record_best st m)"
  by (simp add: record_best_def frame_eq_def)

lemma search_fold:
  assumes nv: "\<not> validating st0" and sd: "0 \<le> stack_depth st0"
    and nk: "\<forall>m \<in> set ms. \<not> is_king_target (board st0) m"
    and fr: "frame_eq st0 st"
  shows "for_each (visit play_rec oh th c) ms st bp =
         Running (if fold max (map (move_score st0 c) ms) bp > bp
                  then record_best st
                         (the (find (\<lambda>m. move_score st0 c m = fold max (map (move_score st0 c) ms) bp) ms))
                  else st)
                 (fold max (map (move_score st0 c) ms) bp)"
  using nk fr
proof (induction ms arbitrary: st bp)
  case Nil
  then show ?case by simp
next
  case (Cons m ms)
  let ?f = "move_score st0 c"
  have fr: "frame_eq st0 st" by (rule Cons.prems(2))
  have nv': "\<not> validating st" using nv frame_eq_validating [OF fr] by simp
  have nk': "\<not> is_king_target (board st) m" using Cons.prems(1) fr by (simp add: frame_eq_def)
  have sd': "0 \<le> stack_depth st" using sd fr by (simp add: frame_eq_def)
  have ms: "move_score st c m = ?f m" using fr by (rule move_score_frame)
  have step: "visit play_rec oh th c m st bp =
          (if ?f m > bp then Running (record_best st m) (?f m) else Running st bp)"
    using visit_search_step [OF nv' nk' sd', of oh th c bp] ms by simp
  have nks: "\<forall>m \<in> set ms. \<not> is_king_target (board st0) m" using Cons.prems(1) by simp
  show ?case
  proof (cases "?f m > bp")
    case True
    let ?mx = "fold max (map ?f ms) (?f m)"
    have ge: "?f m \<le> ?mx" by (rule fold_max_ge)
    have fr1: "frame_eq st0 (record_best st m)"
      using fr frame_eq_record_best [of st m] by (rule frame_eq_trans)
    have e: "fold max (map ?f (m # ms)) bp = ?mx" using True by (simp add: max_def)
    from Cons.IH [OF nks fr1, of "?f m"] show ?thesis
      using True ge step unfolding e by (auto simp add: )
  next
    case False
    let ?mx = "fold max (map ?f ms) bp"
    have e: "fold max (map ?f (m # ms)) bp = ?mx" using False by (simp add: max_def)
    from Cons.IH [OF nks fr, of bp] show ?thesis
      using False step unfolding e by auto
  qed
qed

lemma Max_fold: "Max (insert (a::int) (f ` set ms)) = fold max (map f ms) a"
proof -
  have "Max (set (a # map f ms)) = fold max (map f ms) a" by (rule Max.set_eq_fold)
  then show ?thesis by simp
qed

subsection \<open>The traced functions are the search engine\<close>

text \<open>
  Dropping the trace from the traced functions gives the functions of the search engine, for
  every recursive call.
\<close>

lemma search_move_log_fst:
  "fst (search_move_log rec c s p st bp di) = search_move (unlogged rec) c s p st bp di"
  by (simp add: search_move_log_def search_move_def unlogged_def Let_def split: option.splits)

lemma ray_loop_log_fst:
  "fst (ray_loop_log rec L st bp di0) = ray_loop (unlogged rec) L st bp di0"
proof (induction rec L st bp di0 rule: ray_loop_log.induct)
  case (1 rec L st bp di0)
  let ?di = "next_target L di0"
  let ?sm = "search_move_log rec (current_color L) (si L) (piece_at_origin L) st bp ?di"
  show ?case
  proof (cases "off_board ?di \<or> \<not> target_ok (board st) (enp st) L ?di
                \<or> get_piece_type (board st ! nat ?di) = KING")
    case True
    then show ?thesis
      by (auto simp add: ray_loop_log.simps [of rec L st bp di0]
          ray_loop.simps [of _ L st bp di0] Let_def)
  next
    case ok: False
    show ?thesis
    proof (cases "validating st")
      case True
      then show ?thesis using ok "1.IH"(1) [of ?di]
        by (auto simp add: ray_loop_log.simps [of rec L st bp di0]
            ray_loop.simps [of _ L st bp di0] Let_def)
    next
      case nv: False
      obtain out w where sm: "?sm = (out, w)" by (cases ?sm)
      have f: "search_move (unlogged rec) (current_color L) (si L) (piece_at_origin L) st bp ?di = out"
        using search_move_log_fst [of rec "current_color L" "si L" "piece_at_origin L" st bp ?di] sm
        by simp
      show ?thesis
      proof (cases out)
        case NoFuel
        then show ?thesis using ok nv sm f
          by (simp add: ray_loop_log.simps [of rec L st bp di0]
              ray_loop.simps [of _ L st bp di0] Let_def)
      next
        case (Returned r sc st')
        then show ?thesis using ok nv sm f
          by (simp add: ray_loop_log.simps [of rec L st bp di0]
              ray_loop.simps [of _ L st bp di0] Let_def)
      next
        case (Running st' bp')
        show ?thesis
        proof (cases "\<not> is_sliding_piece L \<or> (board st ! nat ?di) AND 0x0F \<noteq> EMPTY")
          case True
          then show ?thesis using ok nv sm f Running
            by (auto simp add: ray_loop_log.simps [of rec L st bp di0]
                ray_loop.simps [of _ L st bp di0] Let_def)
        next
          case False
          have "fst (ray_loop_log rec L st' bp' ?di) = ray_loop (unlogged rec) L st' bp' ?di"
          proof (rule "1.IH"(2) [of ?di out w st' bp'])
            show "?di = next_target L di0" by simp
            show "\<not> off_board ?di" using ok by simp
            show "\<not> \<not> target_ok (board st) (enp st) L ?di" using ok by simp
            show "get_piece_type (board st ! nat ?di) \<noteq> KING" using ok by simp
            show "\<not> validating st" by (rule nv)
            show "(out, w) = ?sm" using sm by simp
            show "out = Running st' bp'" by (rule Running)
            show "\<not> (\<not> is_sliding_piece L \<or> (board st ! nat ?di) AND 0x0F \<noteq> EMPTY)" by (rule False)
          qed
          then show ?thesis using ok nv sm f Running False
            by (auto simp add: ray_loop_log.simps [of rec L st bp di0]
                ray_loop.simps [of _ L st bp di0] Let_def split: prod.splits)
        qed
      qed
    qed
  qed
qed

lemma for_each_log_fst:
  assumes "\<And>x st bp. fst (body_log x st bp) = body x st bp"
  shows "fst (for_each_log body_log xs st bp) = for_each body xs st bp"
proof (induction xs arbitrary: st bp)
  case Nil
  then show ?case by simp
next
  case (Cons x xs)
  obtain out w where b: "body_log x st bp = (out, w)" by (cases "body_log x st bp")
  then have e: "body x st bp = out" using assms [of x st bp] by simp
  show ?case
  proof (cases out)
    case (Running st' bp')
    obtain out' w' where r: "for_each_log body_log xs st' bp' = (out', w')"
      by (cases "for_each_log body_log xs st' bp'")
    then have "for_each body xs st' bp' = out'" using Cons.IH [of st' bp'] by simp
    then show ?thesis using b e r Running by simp
  qed (use b e in simp_all)
qed

lemma square_moves_log_fst:
  "fst (square_moves_log rec oh th c s st bp) = square_moves (unlogged rec) oh th c s st bp"
  by (simp add: square_moves_log_def square_moves_def Let_def for_each_log_fst ray_loop_log_fst
      split: option.splits)

lemma play_body_log_fst:
  "map_option fst (play_body_log rec st oh th c) = play_body (unlogged rec) st oh th c"
proof -
  let ?o = "for_each_log (square_moves_log rec oh th c) [0..119] st MIN_SCORE"
  have "fst ?o = for_each (square_moves (unlogged rec) oh th c) [0..119] st MIN_SCORE"
    by (rule for_each_log_fst) (rule square_moves_log_fst)
  then show ?thesis
    by (cases ?o; cases "fst ?o") (simp_all add: play_body_log_def play_body_def Let_def)
qed

lemma play_fuel_log_fst:
  "map_option fst (play_fuel_log n st oh th c) = play_fuel n st oh th c"
proof (induction n arbitrary: st oh th c)
  case 0
  then show ?case by simp
next
  case (Suc n)
  have "unlogged (\<lambda>st' c'. play_fuel_log n st' (- 1) (- 1) c') = (\<lambda>st' c'. play_fuel n st' (- 1) (- 1) c')"
    by (intro ext) (simp add: unlogged_def Suc.IH)
  then show ?case by (simp add: play_body_log_fst)
qed

lemma play_log_fst: "map_option fst (play_log st oh th c) = play st oh th c"
  unfolding play_log_def play_def by (rule play_fuel_log_fst)

lemma play_validate_log_fst:
  "map_option fst (play_validate_log st origin target c) = play_validate st origin target c"
proof -
  let ?st = "st\<lparr>legal_move_check := 1, depth_limit := MAX_DEPTH_PLY1, stack_depth := 0\<rparr>"
  have "map_option fst (play_log ?st origin target c) = play ?st origin target c"
    by (rule play_log_fst)
  then show ?thesis
    by (cases "play_log ?st origin target c")
       (auto simp add: play_validate_log_def play_validate_def Let_def split: option.splits)
qed

text \<open>In validation mode no step of the loops leaves a trace.\<close>

lemma ray_loop_log_quiet:
  "validating st \<Longrightarrow> quiet st (ray_loop_log rec L st bp di0)"
proof (induction rec L st bp di0 rule: ray_loop_log.induct)
  case (1 rec L st bp di0)
  let ?di = "next_target L di0"
  show ?case
  proof (cases "off_board ?di \<or> \<not> target_ok (board st) (enp st) L ?di
                \<or> get_piece_type (board st ! nat ?di) = KING
                \<or> (si L = origin_hint L \<and> ?di = target_hint L)")
    case True
    then show ?thesis using "1.prems"
      by (auto simp add: ray_loop_log.simps [of rec L st bp di0] Let_def quiet_def)
  next
    case False
    then have "quiet st (ray_loop_log rec L st bp ?di)"
      using "1.IH"(1) [of ?di] "1.prems" by simp
    then show ?thesis using False "1.prems"
      by (auto simp add: ray_loop_log.simps [of rec L st bp di0] Let_def)
  qed
qed

lemma for_each_log_quiet:
  assumes "\<And>x bp. x \<in> set xs \<Longrightarrow> quiet st (body x st bp)"
  shows "quiet st (for_each_log body xs st bp)"
  using assms
proof (induction xs arbitrary: bp)
  case Nil
  then show ?case by (simp add: quiet_def)
next
  case (Cons x xs)
  obtain out w where b: "body x st bp = (out, w)" by (cases "body x st bp")
  have q: "quiet st (out, w)" using Cons.prems [of x bp] b by simp
  show ?case
  proof (cases out)
    case NoFuel
    then show ?thesis using q by (simp add: quiet_def)
  next
    case (Returned r sc st')
    then show ?thesis using q b by (simp add: quiet_def)
  next
    case (Running st' bp')
    then have "st' = st" "w = []" using q by (simp_all add: quiet_def)
    moreover have "quiet st (for_each_log body xs st bp')"
      using Cons.IH [of bp'] Cons.prems by simp
    ultimately show ?thesis using b Running
      by (cases "for_each_log body xs st bp'") (simp add: quiet_def)
  qed
qed

lemma square_moves_log_quiet:
  "validating st \<Longrightarrow> quiet st (square_moves_log rec oh th c s st bp)"
  by (auto simp add: square_moves_log_def Let_def intro: for_each_log_quiet ray_loop_log_quiet
      split: option.splits) (simp add: quiet_def)

lemma play_body_log_quiet:
  assumes "validating st"
  shows "\<exists>r sc. play_body_log rec st oh th c = Some ((r, sc, st), [])"
proof -
  let ?o = "for_each_log (square_moves_log rec oh th c) [0..119] st MIN_SCORE"
  have "quiet st ?o"
    by (rule for_each_log_quiet) (rule square_moves_log_quiet [OF assms])
  then show ?thesis
    by (cases ?o; cases "fst ?o") (auto simp add: play_body_log_def Let_def quiet_def)
qed

lemma play_log_quiet:
  assumes "validating st"
  shows "\<exists>r sc. play_log st oh th c = Some ((r, sc, st), [])"
  using play_body_log_quiet [OF assms] by (simp add: play_log_def)

lemma play_validate_log_quiet:
  "\<exists>sc. play_validate_log st origin target c =
     Some ((sc, st\<lparr>legal_move_check := 1, depth_limit := MAX_DEPTH_PLY1, stack_depth := 0\<rparr>), [])"
proof -
  let ?st = "st\<lparr>legal_move_check := 1, depth_limit := MAX_DEPTH_PLY1, stack_depth := 0\<rparr>"
  have "validating ?st" by simp
  from play_log_quiet [OF this, of origin target c] show ?thesis
    by (auto simp add: play_validate_log_def Let_def)
qed

text \<open>
  The trace is not empty in general: every move that reaches line 398 logs its two writes
  first, and a search of the position \<open>pawn_state\<close> one reply deep makes the one generated
  move, calls itself and unmakes the move.
\<close>

lemma search_move_log_writes:
  "\<exists>w. snd (search_move_log rec c s p st bp di) = Write di (p AND 0x0F) # Write s EMPTY # w"
  by (simp add: search_move_log_def Let_def split: option.splits prod.splits)

lemma search_trace_example:
  "map_option snd (play_log (pawn_state\<lparr>depth_limit := 2\<rparr>) (- 1) (- 1) WHITE) =
     Some [Write 0x43 0x09, Write 0x33 0x00, Call, Write 0x33 0x09, Write 0x43 0x01]"
  by code_simp

section \<open>Move reversibility\<close>

text \<open>
  Claim C3. Every call of \<open>play\<close> returns, and the board array and the en passant target
  are then what they were at entry. Likewise for each single move of the search: after
  \<open>search_move\<close> has made the move, run the recursive call and unmade the move, the board is
  what it was before the move was made.
\<close>

theorem play_restores_board:
  "(\<exists>r sc st'. play st oh th c = Some (r, sc, st') \<and> board st' = board st \<and> enp st' = enp st)
   \<and> (\<exists>st' bp'. search_move play_rec c s p st bp di = Running st' bp' \<and> board st' = board st)"
proof
  have "nat (depth_limit st - stack_depth st) < Suc (nat (depth_limit st - stack_depth st))"
    by simp
  from play_fuel_frame [OF this, of oh th c]
  show "\<exists>r sc st'. play st oh th c = Some (r, sc, st') \<and> board st' = board st \<and> enp st' = enp st"
    by (auto simp add: play_def frame_eq_def)
next
  from search_move_frame [OF rec_ok_play, of c s p st bp di]
  show "\<exists>st' bp'. search_move play_rec c s p st bp di = Running st' bp' \<and> board st' = board st"
    by (auto simp add: frame_eq_def)
qed

section \<open>Legality and enumeration\<close>

text \<open>
  Claim C1, as stated, fails where a king can be captured: with a white rook on A7 and the
  black king on A8, the validation of any pair of squares returns 78, which is neither 0
  nor the illegal-move score. It returns 78 for the pair E1-D4, which is not generated, and
  for the rook move A7-B7, which is.
\<close>

theorem validate_king_counterexample:
  "map_option fst (play_validate rook_king_state 0x74 0x43 WHITE) = Some 78
   \<and> (0x74, 0x43) \<notin> set (gen_moves True (board rook_king_state) (enp rook_king_state) WHITE)
   \<and> (0x74, 0x43) \<notin> set (gen_moves False (board rook_king_state) (enp rook_king_state) WHITE)
   \<and> map_option fst (play_validate rook_king_state 0x10 0x11 WHITE) = Some 78
   \<and> (0x10, 0x11) \<in> set (gen_moves False (board rook_king_state) (enp rook_king_state) WHITE)"
  by code_simp

text \<open>
  Claim C1, amended. Let no move of the enumeration that validation runs have a king on its
  target square. Then \<open>play_validate\<close> returns, with a score that is 0 or the illegal-move
  score \<open>-127\<close>: it is 0 for every pair of squares that the enumerator generates as the
  search runs it (\<open>gen_moves False\<close>), and it is \<open>-127\<close> whenever the enumeration that validation
  runs (\<open>gen_moves True\<close>) ends without having generated the pair.
\<close>

theorem validate_matches_enumeration:
  assumes "\<forall>m \<in> set (gen_moves True (board st) (enp st) c). \<not> is_king_target (board st) m"
  shows "\<exists>sc. play_validate st origin target c =
            Some (sc, st\<lparr>legal_move_check := 1, depth_limit := MAX_DEPTH_PLY1, stack_depth := 0\<rparr>)
          \<and> ((origin, target) \<in> set (gen_moves False (board st) (enp st) c) \<longrightarrow> sc = 0)
          \<and> ((origin, target) \<notin> set (gen_moves True (board st) (enp st) c) \<longrightarrow>
                sc = ILLEGAL_MOVE_SCORE)
          \<and> (sc = 0 \<or> sc = ILLEGAL_MOVE_SCORE)"
proof -
  let ?ms = "gen_moves True (board st) (enp st) c"
  let ?P = "\<lambda>m. is_king_target (board st) m \<or> m = (origin, target)"
  have f: "find ?P ?ms = (if (origin, target) \<in> set ?ms then Some (origin, target) else None)"
  proof (cases "find ?P ?ms")
    case None
    then show ?thesis by (auto simp add: find_None_iff)
  next
    case (Some m)
    then have "m \<in> set ?ms" "?P m" by (auto simp add: find_Some_iff in_set_conv_nth)
    with assms have "m = (origin, target)" by auto
    then show ?thesis using Some \<open>m \<in> set ?ms\<close> by simp
  qed
  have k: "(origin, target) \<in> set ?ms \<Longrightarrow> \<not> is_king_target (board st) (origin, target)"
    using assms by blast
  show ?thesis
    using gen_moves_subset [of "board st" "enp st" c] k
    by (auto simp add: play_validate_find f)
qed

theorem validate_matches_enumeration_witness:
  "list_all (\<lambda>m. \<not> is_king_target (board initial_state) m)
     (gen_moves True (board initial_state) (enp initial_state) WHITE)
   \<and> (0x71, 0x52) \<in> set (gen_moves False (board initial_state) (enp initial_state) WHITE)
   \<and> map_option fst (play_validate initial_state 0x71 0x52 WHITE) = Some 0
   \<and> (0x71, 0x41) \<notin> set (gen_moves True (board initial_state) (enp initial_state) WHITE)
   \<and> map_option fst (play_validate initial_state 0x71 0x41 WHITE) = Some ILLEGAL_MOVE_SCORE"
proof -
  have h: "list_all (\<lambda>m. \<not> is_king_target (board initial_state) m)
     (gen_moves True (board initial_state) (enp initial_state) WHITE)"
    by code_simp
  then have h': "\<forall>m \<in> set (gen_moves True (board initial_state) (enp initial_state) WHITE).
     \<not> is_king_target (board initial_state) m"
    by (simp add: list_all_iff)
  have g: "(0x71, 0x52) \<in> set (gen_moves False (board initial_state) (enp initial_state) WHITE)"
    "(0x71, 0x41) \<notin> set (gen_moves True (board initial_state) (enp initial_state) WHITE)"
    by code_simp+
  show ?thesis
    using validate_matches_enumeration [OF h', of "0x71" "0x52"]
      validate_matches_enumeration [OF h', of "0x71" "0x41"] h g
    by auto
qed

section \<open>Validation only reads the board\<close>

text \<open>
  Claim C10. In validation mode (\<open>legal_move_check\<close> set and \<open>stack_depth\<close> zero) the trace of
  \<open>play\<close> is empty: no assignment to the board array is executed, not even one that is undone
  afterwards, and the recursive call of line 411 is not executed. This holds for the body of
  \<open>play\<close> whatever the recursive call would do, for \<open>play\<close> itself, and for \<open>play_validate\<close>
  from any state; the traced functions are the search engine with the trace added. The
  reason is that \<open>play\<close> does to the state what one pass of \<open>visit\<close> over the generated moves
  does, and there each move is answered in one of three ways, none of which reaches
  \<open>search_move\<close>, the only place where the board is written and the recursive call is made:
  return at a king capture, return at the validated move, or go on with the unchanged
  state. So the result does not depend on the recursive call at all, and the state returned
  is the state of entry. \<open>play_validate\<close> changes the three mode fields and nothing else.
\<close>

theorem validation_reads_only:
  assumes "validating st"
  shows "(\<exists>r sc. play st oh th c = Some (r, sc, st))
       \<and> (\<forall>rec. play_body rec st oh th c = play st oh th c)
       \<and> (\<forall>rec. play st oh th c =
             finish st (for_each (visit rec oh th c)
                          (gen_moves True (board st) (enp st) c) st MIN_SCORE))
       \<and> (\<forall>rec m bp. visit rec oh th c m st bp =
             (if is_king_target (board st) m then Returned 1 (king_capture_score st) st
              else if m = (oh, th) then Returned 0 0 st else Running st bp))
       \<and> (\<exists>sc. play_validate st0 origin target c =
             Some (sc, st0\<lparr>legal_move_check := 1, depth_limit := MAX_DEPTH_PLY1,
                            stack_depth := 0\<rparr>))
       \<and> (\<forall>rec. \<exists>r sc. play_body_log rec st oh th c = Some ((r, sc, st), []))
       \<and> (\<exists>r sc. play_log st oh th c = Some ((r, sc, st), []))
       \<and> (\<exists>sc. play_validate_log st0 origin target c =
             Some ((sc, st0\<lparr>legal_move_check := 1, depth_limit := MAX_DEPTH_PLY1,
                             stack_depth := 0\<rparr>), []))
       \<and> map_option fst (play_log st oh th c) = play st oh th c
       \<and> map_option fst (play_validate_log st0 origin target c) =
           play_validate st0 origin target c"
proof (intro conjI allI)
  show "\<exists>r sc. play st oh th c = Some (r, sc, st)"
    using assms by (simp add: play_unfold play_body_validating split: option.splits)
  show "play_body rec st oh th c = play st oh th c" for rec
    using assms by (simp add: play_unfold play_body_validating)
  show "play st oh th c =
        finish st (for_each (visit rec oh th c)
                     (gen_moves True (board st) (enp st) c) st MIN_SCORE)" for rec
    using assms play_body_visit [of st rec oh th c]
    by (simp add: play_unfold play_body_validating)
  show "visit rec oh th c m st bp =
        (if is_king_target (board st) m then Returned 1 (king_capture_score st) st
         else if m = (oh, th) then Returned 0 0 st else Running st bp)" for rec m bp
    using assms by (rule visit_validating)
  show "\<exists>sc. play_validate st0 origin target c =
          Some (sc, st0\<lparr>legal_move_check := 1, depth_limit := MAX_DEPTH_PLY1,
                         stack_depth := 0\<rparr>)"
    by (simp add: play_validate_find)
  show "\<exists>r sc. play_body_log rec st oh th c = Some ((r, sc, st), [])" for rec
    using assms by (rule play_body_log_quiet)
  show "\<exists>r sc. play_log st oh th c = Some ((r, sc, st), [])"
    using assms by (rule play_log_quiet)
  show "\<exists>sc. play_validate_log st0 origin target c =
          Some ((sc, st0\<lparr>legal_move_check := 1, depth_limit := MAX_DEPTH_PLY1,
                          stack_depth := 0\<rparr>), [])"
    by (rule play_validate_log_quiet)
  show "map_option fst (play_log st oh th c) = play st oh th c"
    by (rule play_log_fst)
  show "map_option fst (play_validate_log st0 origin target c) =
          play_validate st0 origin target c"
    by (rule play_validate_log_fst)
qed

theorem validation_reads_only_witness:
  "validating (initial_state\<lparr>legal_move_check := 1\<rparr>)
   \<and> (\<exists>r sc. play (initial_state\<lparr>legal_move_check := 1\<rparr>) 0x63 0x43 WHITE =
          Some (r, sc, initial_state\<lparr>legal_move_check := 1\<rparr>))
   \<and> (\<exists>r sc. play_log (initial_state\<lparr>legal_move_check := 1\<rparr>) 0x63 0x43 WHITE =
          Some ((r, sc, initial_state\<lparr>legal_move_check := 1\<rparr>), []))"
proof -
  have h: "validating (initial_state\<lparr>legal_move_check := 1\<rparr>)"
    by code_simp
  show ?thesis
    using validation_reads_only [OF h, of "0x63" "0x43" WHITE] h by simp
qed

section \<open>King capture\<close>

text \<open>
  Claim C2. Let the enumeration of the node produce a move \<open>m\<close> whose target square holds a
  king (in validation mode: before the move that is being validated has been produced).
  Then \<open>play\<close> returns 1 with the king-capture score in \<open>*best_score\<close>: 78, and 156 exactly
  when \<open>stack_depth\<close> is beyond the boundary \<open>MAX_DEPTH_PLY1 = 4\<close>. The score does not depend
  on any other move of the node, the board is as at entry, and the move itself is answered
  without the recursive call, whatever that call would do.
\<close>

theorem king_capture_returns:
  assumes gen: "gen_moves (validating st) (board st) (enp st) c = pre @ m # post"
    and king: "is_king_target (board st) m"
    and unmatched: "validating st \<longrightarrow> (oh, th) \<notin> set pre"
  shows "(\<exists>st'. play st oh th c = Some (1, king_capture_score st, st') \<and> board st' = board st)
       \<and> king_capture_score st = (if stack_depth st > 4 then 156 else 78)
       \<and> (\<forall>rec bp. visit rec oh th c m st bp = Returned 1 (king_capture_score st) st)"
proof (intro conjI allI)
  let ?vis = "visit play_rec oh th c"
  have ok: "validating st \<or> rec_ok play_rec st" by (simp add: rec_ok_play)
  have "\<exists>st'. for_each ?vis (pre @ m # post) st MIN_SCORE = Returned 1 (king_capture_score st) st'
          \<and> frame_eq st st'"
    using for_each_visit_cases [OF ok, of oh th c pre MIN_SCORE]
  proof (elim disjE exE conjE)
    fix r sc st'
    assume f: "for_each ?vis pre st MIN_SCORE = Returned r sc st'" and fr: "frame_eq st st'"
    from for_each_returned [OF ok f] unmatched
    have "r = 1 \<and> sc = king_capture_score st" by auto
    then show ?thesis using f fr by (auto simp add: for_each_append)
  next
    fix st' bp'
    assume f: "for_each ?vis pre st MIN_SCORE = Running st' bp'" and fr: "frame_eq st st'"
    have "?vis m st' bp' = Returned 1 (king_capture_score st) st'"
      using king fr by (cases m) (simp add: visit_pair is_king_target_def frame_eq_def king_capture_score_def)
    then show ?thesis using f fr by (auto simp add: for_each_append)
  qed
  then show "\<exists>st'. play st oh th c = Some (1, king_capture_score st, st') \<and> board st' = board st"
    by (auto simp add: play_visit gen finish_def frame_eq_def)
  show "king_capture_score st = (if stack_depth st > 4 then 156 else 78)"
    by (simp add: king_capture_score_def const_defs)
  fix rec bp
  show "visit rec oh th c m st bp = Returned 1 (king_capture_score st) st"
    using king by (cases m) (simp add: visit_pair is_king_target_def)
qed

theorem king_capture_returns_witness:
  "is_king_target (board rook_king_state) (0x10, 0x00)
   \<and> (\<exists>st'. play rook_king_state (- 1) (- 1) WHITE = Some (1, 78, st')
          \<and> board st' = board rook_king_state)"
proof -
  have g: "gen_moves (validating rook_king_state) (board rook_king_state) (enp rook_king_state) WHITE
           = [] @ (0x10, 0x00) #
             tl (gen_moves (validating rook_king_state) (board rook_king_state)
                   (enp rook_king_state) WHITE)"
    by code_simp
  have k: "is_king_target (board rook_king_state) (0x10, 0x00)"
    by code_simp
  have u: "validating rook_king_state \<longrightarrow> (- 1, - 1) \<notin> set []"
    by simp
  have s: "king_capture_score rook_king_state = 78"
    by code_simp
  show ?thesis
    using king_capture_returns [OF g k u] k s by simp
qed

section \<open>The score of a search node\<close>

text \<open>
  The running best score starts at the minimum score and is replaced only by a strictly
  larger score (lines 277 and 421), although scores below the minimum occur: a node without
  moves returns \<open>-32768\<close>, its parent scores the move \<open>32768\<close> plus the material, and the move
  above that \<open>-32768\<close> minus material. In \<open>clamp_state\<close> both moves of the side to move have
  the score \<open>-32771\<close>; \<open>play\<close> returns \<open>-32768\<close>, which is the score of no move, and records no
  best move at the root.
\<close>

lemma score_below_minimum:
  "play clamp_state (- 1) (- 1) WHITE = Some (0, - 32768, clamp_state)
   \<and> map (move_score clamp_state WHITE)
         (gen_moves False (board clamp_state) (enp clamp_state) WHITE) = [- 32771, - 32771]"
  by code_simp

text \<open>
  Claim C4, as stated, fails where a generated move captures a king: the node returns the
  king-capture score and not the largest score of its moves. In \<open>rook_king_leaf\<close> every move
  has the score 0, and \<open>play\<close> returns 78.
\<close>

theorem node_score_counterexample:
  "verdict (play rook_king_leaf (- 1) (- 1) WHITE) = Some (1, 78)
   \<and> best_score_of rook_king_leaf WHITE = 0"
  by code_simp

text \<open>
  Claim C4, amended. At a search node (not the validation call, stack depth not negative)
  none of whose generated moves has a king on its target square, each generated move is
  scored with \<open>move_score\<close>: the material value of the captured piece, minus the score that
  the recursive call returns for the position after the move when the node is below the
  depth limit. A move whose score exceeds the running best score replaces it and is, at the
  root, recorded as the best move. When some generated move scores above the minimum score
  \<open>-32768\<close>, \<open>play\<close> returns 0 with the score \<open>best_score_of\<close>, the largest score of the
  generated moves, and the root records the first generated move that has this score; below
  the root the state is returned as it was. When no move is generated, \<open>play\<close> returns 0
  with the minimum score and the state as it was.
\<close>

theorem node_score:
  assumes "\<not> validating st" and "0 \<le> stack_depth st"
    and "\<forall>m \<in> set (gen_moves False (board st) (enp st) c). \<not> is_king_target (board st) m"
  shows "(gen_moves False (board st) (enp st) c = [] \<longrightarrow>
            play st oh th c = Some (0, MIN_SCORE, st))
       \<and> ((\<exists>m \<in> set (gen_moves False (board st) (enp st) c). move_score st c m > MIN_SCORE) \<longrightarrow>
            play st oh th c =
              Some (0, best_score_of st c, record_best st (the (first_best st c))))
       \<and> (\<forall>m \<in> set (gen_moves False (board st) (enp st) c). \<forall>bp.
             visit play_rec oh th c m st bp =
               (if move_score st c m > bp then Running (record_best st m) (move_score st c m)
                else Running st bp))"
proof (intro conjI ballI allI impI)
  let ?ms = "gen_moves False (board st) (enp st) c"
  let ?f = "move_score st c"
  have run: "for_each (visit play_rec oh th c) ?ms st MIN_SCORE =
        Running (if fold max (map ?f ?ms) MIN_SCORE > MIN_SCORE
                 then record_best st (the (find (\<lambda>m. ?f m = fold max (map ?f ?ms) MIN_SCORE) ?ms))
                 else st)
                (fold max (map ?f ?ms) MIN_SCORE)"
    by (rule search_fold [OF assms(1,2,3) frame_eq_refl])
  have v: "validating (record_best st m) = validating st" for m
    using frame_eq_validating [OF frame_eq_record_best] .
  have e: "(record_best st m)\<lparr>enp := enp st\<rparr> = record_best st m" for m
    by (simp add: record_best_def)
  {
    assume "?ms = []"
    then show "play st oh th c = Some (0, MIN_SCORE, st)"
      using run assms(1) by (simp add: play_visit finish_def)
  }
  {
    assume "\<exists>m \<in> set ?ms. ?f m > MIN_SCORE"
    then obtain m where m: "m \<in> set ?ms" "?f m > MIN_SCORE" by blast
    have ne: "?f ` set ?ms \<noteq> {}" using m by auto
    have "?f m \<le> Max (?f ` set ?ms)" using m(1) by (intro Max_ge) auto
    then have gt: "Max (?f ` set ?ms) > MIN_SCORE" using m(2) by linarith
    have "fold max (map ?f ?ms) MIN_SCORE = Max (insert MIN_SCORE (?f ` set ?ms))"
      by (simp add: Max_fold)
    also have "\<dots> = max MIN_SCORE (Max (?f ` set ?ms))"
      using ne by simp
    also have "\<dots> = best_score_of st c" using gt by (simp add: best_score_of_def)
    finally have b: "fold max (map ?f ?ms) MIN_SCORE = best_score_of st c" .
    have gt': "best_score_of st c > MIN_SCORE" using gt by (simp add: best_score_of_def)
    show "play st oh th c = Some (0, best_score_of st c, record_best st (the (first_best st c)))"
      using run assms(1) gt' unfolding b
      by (simp add: play_visit finish_def first_best_def v e)
  }
next
  fix m bp
  assume "m \<in> set (gen_moves False (board st) (enp st) c)"
  with assms(3) have "\<not> is_king_target (board st) m" by blast
  from visit_search_step [OF assms(1) this assms(2)]
  show "visit play_rec oh th c m st bp =
         (if move_score st c m > bp then Running (record_best st m) (move_score st c m)
          else Running st bp)" .
qed

theorem node_score_witness:
  "\<not> validating skirmish_state \<and> 0 \<le> stack_depth skirmish_state
   \<and> list_all (\<lambda>m. \<not> is_king_target (board skirmish_state) m)
        (gen_moves False (board skirmish_state) (enp skirmish_state) WHITE)
   \<and> list_ex (\<lambda>m. move_score skirmish_state WHITE m > MIN_SCORE)
        (gen_moves False (board skirmish_state) (enp skirmish_state) WHITE)
   \<and> play skirmish_state (- 1) (- 1) WHITE =
       Some (0, 32771, skirmish_state\<lparr>best_from := 0x10, best_to := 0x11\<rparr>)
   \<and> visit play_rec (- 1) (- 1) WHITE (0x10, 0x11) skirmish_state 0 =
       Running (skirmish_state\<lparr>best_from := 0x10, best_to := 0x11\<rparr>) 32771
   \<and> \<not> validating stuck_state \<and> 0 \<le> stack_depth stuck_state
   \<and> gen_moves False (board stuck_state) (enp stuck_state) BLACK = []
   \<and> play stuck_state (- 1) (- 1) BLACK = Some (0, MIN_SCORE, stuck_state)"
proof -
  have h1: "\<not> validating skirmish_state"
    by code_simp
  have h2: "0 \<le> stack_depth skirmish_state" and sd: "stack_depth skirmish_state = 0"
    by code_simp+
  have h3: "list_all (\<lambda>m. \<not> is_king_target (board skirmish_state) m)
        (gen_moves False (board skirmish_state) (enp skirmish_state) WHITE)"
    by code_simp
  then have h3': "\<forall>m \<in> set (gen_moves False (board skirmish_state) (enp skirmish_state) WHITE).
        \<not> is_king_target (board skirmish_state) m"
    by (simp add: list_all_iff)
  have h4: "list_ex (\<lambda>m. move_score skirmish_state WHITE m > MIN_SCORE)
        (gen_moves False (board skirmish_state) (enp skirmish_state) WHITE)"
    by code_simp
  then have h4': "\<exists>m \<in> set (gen_moves False (board skirmish_state) (enp skirmish_state) WHITE).
        move_score skirmish_state WHITE m > MIN_SCORE"
    by (simp add: list_ex_iff)
  have v: "best_score_of skirmish_state WHITE = 32771"
    by code_simp
  have f: "first_best skirmish_state WHITE = Some (0x10, 0x11)"
    by code_simp
  have g: "(0x10, 0x11) \<in> set (gen_moves False (board skirmish_state) (enp skirmish_state) WHITE)"
    by code_simp
  have s: "move_score skirmish_state WHITE (0x10, 0x11) = 32771"
    by code_simp
  have k1: "\<not> validating stuck_state"
    by code_simp
  have k2: "0 \<le> stack_depth stuck_state"
    by code_simp
  have k3: "gen_moves False (board stuck_state) (enp stuck_state) BLACK = []"
    by code_simp
  then have k3': "\<forall>m \<in> set (gen_moves False (board stuck_state) (enp stuck_state) BLACK).
        \<not> is_king_target (board stuck_state) m"
    by simp
  have a: "play skirmish_state (- 1) (- 1) WHITE =
       Some (0, 32771, skirmish_state\<lparr>best_from := 0x10, best_to := 0x11\<rparr>)"
    using node_score [OF h1 h2 h3', of "- 1" "- 1"] h4'
    by (simp add: v f sd record_best_def)
  have b: "visit play_rec (- 1) (- 1) WHITE (0x10, 0x11) skirmish_state 0 =
       Running (skirmish_state\<lparr>best_from := 0x10, best_to := 0x11\<rparr>) 32771"
    using node_score [OF h1 h2 h3', of "- 1" "- 1"] g
    by (simp add: s sd record_best_def)
  have c: "play stuck_state (- 1) (- 1) BLACK = Some (0, MIN_SCORE, stuck_state)"
    using node_score [OF k1 k2 k3', of "- 1" "- 1"] k3 by simp
  show ?thesis
    using h1 h2 h3 h4 a b k1 k2 k3 c by simp
qed

section \<open>Pawn moves\<close>

text \<open>
  For a pawn the movement offset is 16 or 20 and the movement count is 4, in all four
  directions. The test of the target square is then the same in all four: an empty square
  is accepted when it is the en passant target, an occupied one when it holds a piece of
  the other colour.
\<close>

lemma pawn_geometry: "geometry c 0 = ((if c = BLACK then 16 else 20), 4, 4)"
  by (simp add: geometry_def)

lemma pawn_target_ok:
  assumes "movement_offset L \<ge> 16" and "movement_count L = 4"
  shows "target_ok b e L di \<longleftrightarrow>
          (if (b ! nat di) AND 0x0F = EMPTY then di = e
           else uint (b ! nat di) AND COLOR_MASK \<noteq> current_color L
              \<and> uint ((b ! nat di) AND 0x0F) AND PIECE_MASK < 7)"
  using assms by (simp add: target_ok_def Let_def)

text \<open>
  Claim C5. With white pawns on D5 and F5 and a black pawn on D4, the only move generated
  for White is the pawn move from D5 (\<open>0x33\<close>) by the displacement 16, an advance entry of
  the pawn rows, onto the occupied square D4 (\<open>0x43\<close>); validation accepts it. The straight
  moves of the pawn on F5 (\<open>0x35\<close>) onto the empty squares \<open>0x45\<close> and \<open>0x25\<close> are not generated,
  and validation rejects them.
\<close>

theorem pawn_straight_capture:
  "gen_moves False (board pawn_state) (enp pawn_state) WHITE = [(0x33, 0x43)]
   \<and> gen_moves True (board pawn_state) (enp pawn_state) WHITE = [(0x33, 0x43)]
   \<and> board pawn_state ! 0x43 = 0x01
   \<and> map_option fst (play_validate pawn_state 0x33 0x43 WHITE) = Some 0
   \<and> map_option fst (play_validate pawn_state 0x35 0x45 WHITE) = Some ILLEGAL_MOVE_SCORE
   \<and> map_option fst (play_validate pawn_state 0x35 0x25 WHITE) = Some ILLEGAL_MOVE_SCORE"
  by code_simp

section \<open>Sliding and stepping\<close>

text \<open>
  Of the six piece indices (pawn, rook, bishop, queen, knight, king) the rook, the bishop
  and the queen slide. As the search runs the ray loop, a ray goes on over empty squares
  only and only for a sliding piece, so that a piece that does not slide yields at most one
  target in a direction.
\<close>

lemma sliding_pieces:
  "map (\<lambda>i. sliding (snd (snd (geometry c i)))) [0, 1, 2, 3, 4, 5]
     = [False, True, True, True, False, False]"
  by (simp add: geometry_def sliding_def offsets_def Let_def)

lemma search_ray_unfold:
  "ray_targets False b e L di0 =
    (let di = next_target L di0 in
     if off_board di \<or> \<not> target_ok b e L di then []
     else if is_sliding_piece L \<and> (b ! nat di) AND 0x0F = EMPTY
          then di # ray_targets False b e L di
          else [di])"
  by (simp add: ray_targets.simps [of False b e L di0] Let_def)

lemma search_ray_step_once:
  "\<not> is_sliding_piece L \<Longrightarrow> length (ray_targets False b e L di0) \<le> 1"
  by (simp add: search_ray_unfold [of b e L di0] Let_def)

text \<open>
  Claim C7. In the initial position the search generates two moves for the knight on B1,
  one in each open direction. The enumeration that validation runs goes on in the
  direction \<open>-31\<close> from C3 over the empty square D5 to the black pawn on E7: three
  candidates in one direction for a knight. Validation accepts the knight move B1-D5.
\<close>

theorem knight_slides_in_validation:
  "filter (\<lambda>m. fst m = 0x71) (gen_moves False (board initial_state) (enp initial_state) WHITE)
     = [(0x71, 0x50), (0x71, 0x52)]
   \<and> filter (\<lambda>m. fst m = 0x71) (gen_moves True (board initial_state) (enp initial_state) WHITE)
     = [(0x71, 0x50), (0x71, 0x52), (0x71, 0x33), (0x71, 0x14)]
   \<and> map_option fst (play_validate initial_state 0x71 0x33 WHITE) = Some 0"
  by code_simp

section \<open>En passant\<close>

text \<open>
  Claim C8. The black pawn on D7 is moved to D5 (\<open>0x33\<close>) by \<open>make_move\<close>: the en passant target
  becomes \<open>0x33\<close>, the square on which the pawn now stands. Right after that, the diagonal
  move of the white pawn on E4 (\<open>0x44\<close>) onto \<open>0x33\<close> is rejected, and the one of the white pawn
  on E6 (\<open>0x24\<close>) is accepted; executed, it replaces the black pawn and clears no other cell.
  After one further move of each king the en passant target is 0 and the move from \<open>0x24\<close>
  onto \<open>0x33\<close> is still accepted.
\<close>

theorem en_passant_window_open:
  "(case make_move ep_state 0x13 0x33 of
      None \<Rightarrow> False
    | Some st1 \<Rightarrow>
        enp st1 = 0x33 \<and> board st1 ! 0x33 = 0x01
      \<and> map_option fst (play_validate st1 0x44 0x33 WHITE) = Some ILLEGAL_MOVE_SCORE
      \<and> map_option fst (play_validate st1 0x24 0x33 WHITE) = Some 0
      \<and> map_option board (make_move st1 0x24 0x33) = Some ((board st1)[0x33 := 0x09, 0x24 := 0x00])
      \<and> (case make_move st1 0x74 0x75 of
            None \<Rightarrow> False
          | Some st2 \<Rightarrow>
              (case make_move st2 0x04 0x05 of
                 None \<Rightarrow> False
               | Some st3 \<Rightarrow>
                   enp st3 = 0
                 \<and> map_option fst (play_validate st3 0x24 0x33 WHITE) = Some 0)))"
  by code_simp

section \<open>Move execution: castling\<close>

text \<open>
  What \<open>make_move\<close> does for a move of a king by two cells (lines 531-543): after the normal
  update of destination and origin, the cell at a fixed distance from the destination
  (\<open>to + 1\<close> for a move to the right, \<open>to - 2\<close> for a move to the left) is copied to the cell
  on the other side of the destination and emptied. For a move to the left with \<open>to < 2\<close> the
  code reads \<open>board[to - 2]\<close> outside the array.
\<close>

lemma make_move_king_two:
  assumes len: "length (board st) = 128"
    and king: "get_piece_type (board st ! nat from) = KING"
    and r: "0 \<le> from" "from < 128" "0 \<le> to" "to < 127"
    and two: "to = from + 2 \<or> to = from - 2"
    and corner: "to = from - 2 \<longrightarrow> 2 \<le> to"
  shows "make_move st from to =
           Some (st\<lparr>board :=
                  (if to = from + 2
                   then (board st)[nat to := board st ! nat from AND 0x0F, nat from := EMPTY,
                                   nat (to - 1) := board st ! nat (to + 1), nat (to + 1) := EMPTY]
                   else (board st)[nat to := board st ! nat from AND 0x0F, nat from := EMPTY,
                                   nat (to + 1) := board st ! nat (to - 2), nat (to - 2) := EMPTY]),
                 enp := 0\<rparr>)"
proof -
  have np: "get_piece_type (board st ! nat from) \<noteq> PAWN"
    using king by (simp add: KING_def PAWN_def)
  from two show ?thesis
  proof
    assume "to = from + 2"
    then show ?thesis using len r king np
      by (simp add: make_move_def rd_def wr_def BOARD_SIZE_def Let_def nth_list_update)
  next
    assume "to = from - 2"
    then show ?thesis using len r king np corner
      by (simp add: make_move_def rd_def wr_def BOARD_SIZE_def Let_def nth_list_update)
  qed
qed

text \<open>
  Claim C9, as stated, fails for a king that does not start on the E file: the cell that
  \<open>make_move\<close> takes for the rook's square is then not the corner. In \<open>dking_state\<close> the white
  king is on D1 and a white rook on H1. \<open>play_validate\<close> accepts the move of the king from
  D1 to F1; \<open>make_move\<close> moves the king, leaves the rook on H1 and leaves E1, the square the
  king passed through, empty.
\<close>

theorem castling_counterexample:
  "get_piece_type (board dking_state ! 0x73) = KING
   \<and> get_piece_type (board dking_state ! 0x77) = ROOK
   \<and> map_option fst (play_validate dking_state 0x73 0x75 WHITE) = Some 0
   \<and> map_option board (make_move dking_state 0x73 0x75) =
       Some ((board dking_state)[0x75 := 0x0E, 0x73 := 0x00])
   \<and> map_option (\<lambda>st. (board st ! 0x74, board st ! 0x77)) (make_move dking_state 0x73 0x75) =
       Some (0x00, 0x1A)"
  by code_simp

text \<open>
  Claim C9, amended. When \<open>make_move\<close> applies a move of a king from the E file by exactly
  two squares along its rank, and a rook stands on the corner square of that rank on the
  side the king moves to (the H file for a move to the right, the A file for a move to the
  left), then that rook is on the square the king passed through afterwards, the corner
  square is empty, the king is moved by the normal path (the destination holds the king
  without its flag bit, the origin is empty), and no other cell of the board changes.
\<close>

theorem castling_relocation:
  assumes wf: "wf_state st"
    and row: "0 \<le> row" "row < 8"
    and e_file: "from = row * 16 + 4"
    and king: "get_piece_type (board st ! nat from) = KING"
    and two: "to = from + 2 \<or> to = from - 2"
    and rook_right: "to = from + 2 \<longrightarrow> get_piece_type (board st ! nat (from + 3)) = ROOK"
    and rook_left: "to = from - 2 \<longrightarrow> get_piece_type (board st ! nat (from - 4)) = ROOK"
  shows "\<exists>st'. make_move st from to = Some st'
           \<and> board st' ! nat to = board st ! nat from AND 0x0F
           \<and> board st' ! nat from = EMPTY
           \<and> (to = from + 2 \<longrightarrow>
                 board st' ! nat (from + 1) = board st ! nat (from + 3)
               \<and> get_piece_type (board st' ! nat (from + 1)) = ROOK
               \<and> board st' ! nat (from + 3) = EMPTY
               \<and> (\<forall>i < 128. i \<notin> {nat from, nat (from + 1), nat (from + 2), nat (from + 3)} \<longrightarrow>
                     board st' ! i = board st ! i))
           \<and> (to = from - 2 \<longrightarrow>
                 board st' ! nat (from - 1) = board st ! nat (from - 4)
               \<and> get_piece_type (board st' ! nat (from - 1)) = ROOK
               \<and> board st' ! nat (from - 4) = EMPTY
               \<and> (\<forall>i < 128. i \<notin> {nat from, nat (from - 1), nat (from - 2), nat (from - 4)} \<longrightarrow>
                     board st' ! i = board st ! i))"
proof -
  have len: "length (board st) = 128" using wf by (simp add: wf_state_def)
  have r: "0 \<le> from" "from < 128" "0 \<le> to" "to < 127" "4 \<le> from" "from \<le> 116"
    using row e_file two by auto
  have corner: "to = from - 2 \<longrightarrow> 2 \<le> to" using r by auto
  from two show ?thesis
  proof
    assume t: "to = from + 2"
    show ?thesis
      using make_move_king_two [OF len king r(1-4) two corner] t len r rook_right
      by (auto simp add: nth_list_update)
  next
    assume t: "to = from - 2"
    show ?thesis
      using make_move_king_two [OF len king r(1-4) two corner] t len r rook_left
      by (auto simp add: nth_list_update)
  qed
qed

theorem castling_relocation_witness:
  "wf_state castle_state
   \<and> get_piece_type (board castle_state ! nat 0x74) = KING
   \<and> get_piece_type (board castle_state ! nat 0x77) = ROOK
   \<and> get_piece_type (board castle_state ! nat 0x70) = ROOK
   \<and> (\<exists>st'. make_move castle_state 0x74 0x76 = Some st'
          \<and> board st' ! nat 0x76 = 0x0E \<and> board st' ! nat 0x74 = EMPTY
          \<and> board st' ! nat 0x75 = 0x1A \<and> board st' ! nat 0x77 = EMPTY
          \<and> board st' ! nat 0x70 = 0x1A)
   \<and> (\<exists>st'. make_move castle_state 0x74 0x72 = Some st'
          \<and> board st' ! nat 0x72 = 0x0E \<and> board st' ! nat 0x74 = EMPTY
          \<and> board st' ! nat 0x73 = 0x1A \<and> board st' ! nat 0x70 = EMPTY
          \<and> board st' ! nat 0x77 = 0x1A)"
proof -
  have h1: "wf_state castle_state"
    by (simp add: castle_state_def wf_state_def)
  have h2: "get_piece_type (board castle_state ! nat 0x74) = KING"
    by (simp add: castle_state_def get_piece_type_def const_defs)
  have h3: "get_piece_type (board castle_state ! nat 0x77) = ROOK"
    "get_piece_type (board castle_state ! nat 0x70) = ROOK"
    by (simp_all add: castle_state_def get_piece_type_def const_defs ROOK_def)
  have b: "board castle_state ! nat 0x74 = 0x1E" "board castle_state ! nat 0x77 = 0x1A"
    "board castle_state ! nat 0x70 = 0x1A"
    by (simp_all add: castle_state_def)
  have right: "\<exists>st'. make_move castle_state 0x74 0x76 = Some st'
          \<and> board st' ! nat 0x76 = 0x0E \<and> board st' ! nat 0x74 = EMPTY
          \<and> board st' ! nat 0x75 = 0x1A \<and> board st' ! nat 0x77 = EMPTY
          \<and> board st' ! nat 0x70 = 0x1A"
    using castling_relocation [OF h1, of 7 "0x74" "0x76"] h2 h3 b by auto
  have left: "\<exists>st'. make_move castle_state 0x74 0x72 = Some st'
          \<and> board st' ! nat 0x72 = 0x0E \<and> board st' ! nat 0x74 = EMPTY
          \<and> board st' ! nat 0x73 = 0x1A \<and> board st' ! nat 0x70 = EMPTY
          \<and> board st' ! nat 0x77 = 0x1A"
    using castling_relocation [OF h1, of 7 "0x74" "0x72"] h2 h3 b by auto
  show ?thesis
    using h1 h2 h3 right left by simp
qed

section \<open>The opening move D2-D4\<close>

text \<open>
  Claim C6. From the standard initial position the validation of the white pawn move D2-D4
  (squares \<open>0x63\<close> to \<open>0x43\<close>) returns the illegal-move score: a white pawn is given the
  displacements \<open>15, 17, 16, 32\<close>, which lead from rank 2 to rank 1 and off the board, never
  to rank 4. Applying the move with \<open>make_move\<close> does set the en passant target to \<open>0x43\<close>.
\<close>

theorem d2d4_rejected:
  "map_option fst (play_validate initial_state 0x63 0x43 WHITE) = Some ILLEGAL_MOVE_SCORE
   \<and> map_option enp (make_move initial_state 0x63 0x43) = Some 0x43"
  by code_simp

end
